theory Spec2Isabelle
  imports Main "HOL-Library.Monad_Syntax"
begin

text \<open>
  The sync log of Buteo (\<open>libbuteosyncfw/profile/SyncLog.cpp\<close>): a list of at most five
  sync results, oldest first, and a copy of the last successful result that outlives its
  entry in the list. The log owns its results through raw pointers and \<open>addResults\<close>
  takes its argument by reference, so the methods are modelled as functions on a heap
  and a call that reads a deleted object has no result; the properties are stated on
  the state of a log read as values.
\<close>

section \<open>Collaborators of SyncLog.cpp\<close>

text \<open>
  Modelled from the spec: the class SyncResults (SyncResults.h, SyncResults.cpp) is not
  part of the sources. The log reads three things of a result: its major code, its minor
  code and its sync time, a QDateTime that may be null (\<open>None\<close>). The two enumeration
  constants the log compares against are named as in the source; their values matter
  only where the sample data are evaluated.
\<close>

record SyncResults =
  majorCode :: int
  minorCode :: int
  syncTime :: "nat option"

definition SYNC_RESULT_SUCCESS :: int where
  "SYNC_RESULT_SUCCESS = 0"

definition NO_ERROR :: int where
  "NO_ERROR = 0"

text \<open>
  \<open>SyncResults::operator<\<close> is missing as well, so every function that compares two
  results takes the comparison as its first argument.
\<close>

type_synonym results_order = "SyncResults \<Rightarrow> SyncResults \<Rightarrow> bool"

text \<open>
  Modelled from the spec: the tag and attribute names of ProfileEngineDefs.h are missing.
  The strings stand for the sync log tag, the sync results tag and the name attribute.
\<close>

definition TAG_SYNC_LOG :: string where
  "TAG_SYNC_LOG = ''synclog''"

definition TAG_SYNC_RESULTS :: string where
  "TAG_SYNC_RESULTS = ''syncresults''"

definition ATTR_NAME :: string where
  "ATTR_NAME = ''name''"

text \<open>
  A DOM element: its tag, its attributes and its child elements in document order (the
  log reads and writes element children only). \<open>SyncResults::toXml\<close> and the constructor
  of a result from an element are missing; the functions that need them take them as
  arguments. The \<open>QDomDocument\<close> that \<open>toXml\<close> receives only creates the elements and
  is left out.
\<close>

datatype QDomElement =
  QDomElement (tagName: string) (attributes: "(string \<times> string) list")
    (childNodes: "QDomElement list")

type_synonym results_writer = "SyncResults \<Rightarrow> QDomElement"
type_synonym results_reader = "QDomElement \<Rightarrow> SyncResults"

definition createElement :: "string \<Rightarrow> QDomElement" where
  "createElement tag = QDomElement tag [] []"

definition setAttribute :: "string \<Rightarrow> string \<Rightarrow> QDomElement \<Rightarrow> QDomElement" where
  "setAttribute k v e =
     QDomElement (tagName e)
       (if k \<in> fst ` set (attributes e)
        then map (\<lambda>(k', v'). if k' = k then (k', v) else (k', v')) (attributes e)
        else attributes e @ [(k, v)])
       (childNodes e)"

definition attribute :: "QDomElement \<Rightarrow> string \<Rightarrow> string" where
  "attribute e k = (case map_of (attributes e) k of None \<Rightarrow> [] | Some v \<Rightarrow> v)"

definition appendChild :: "QDomElement \<Rightarrow> QDomElement \<Rightarrow> QDomElement" where
  "appendChild c e = QDomElement (tagName e) (attributes e) (childNodes e @ [c])"

text \<open>
  A handle on a child element is the element together with its later siblings; the null
  element is the empty list. \<open>firstChildElement\<close> and \<open>nextSiblingElement\<close> skip the
  elements with another tag.
\<close>

type_synonym QDomCursor = "QDomElement list"

definition firstChildElement :: "string \<Rightarrow> QDomElement \<Rightarrow> QDomCursor" where
  "firstChildElement tag e = dropWhile (\<lambda>c. tagName c \<noteq> tag) (childNodes e)"

definition nextSiblingElement :: "string \<Rightarrow> QDomCursor \<Rightarrow> QDomCursor" where
  "nextSiblingElement tag cur = dropWhile (\<lambda>c. tagName c \<noteq> tag) (tl cur)"

section \<open>The heap\<close>

text \<open>
  The source owns its results through raw pointers, and the private part of a log through
  \<open>d_ptr\<close>. An object store is a list of cells, the address of an object is its index;
  \<open>new\<close> appends a cell, \<open>delete\<close> empties one. Reading or deleting through a pointer
  that is null, out of range or already deleted is undefined behaviour in C++: the model
  returns \<open>None\<close> there. Deleting the null pointer does nothing.
\<close>

datatype ptr = Null | Ptr nat

type_synonym 'a store = "'a option list"

fun deref :: "'a store \<Rightarrow> ptr \<Rightarrow> 'a option" where
  "deref s Null = None"
| "deref s (Ptr a) = (if a < length s then s ! a else None)"

definition alloc :: "'a \<Rightarrow> 'a store \<Rightarrow> ptr \<times> 'a store" where
  "alloc v s = (Ptr (length s), s @ [Some v])"

fun assign :: "ptr \<Rightarrow> 'a \<Rightarrow> 'a store \<Rightarrow> 'a store option" where
  "assign Null v s = None"
| "assign (Ptr a) v s = (if deref s (Ptr a) = None then None else Some (s[a := Some v]))"

fun release :: "ptr \<Rightarrow> 'a store \<Rightarrow> 'a store option" where
  "release Null s = Some s"
| "release (Ptr a) s = (if deref s (Ptr a) = None then None else Some (s[a := None]))"

record SyncLogPrivate =
  iProfileName :: string
  iResults :: "ptr list"
  iLastSuccessfulResults :: ptr

record Heap =
  privs :: "SyncLogPrivate store"
  results :: "SyncResults store"

record SyncLog =
  d_ptr :: ptr

text \<open>
  A \<open>const SyncResults &\<close> argument refers either to an object of the caller's that no
  log owns or deletes (a local or a temporary), which is given by its value, or to an
  object in the store of results, which is given by its address: the pointers that
  \<open>allResults\<close>, \<open>lastResults\<close> and \<open>lastSuccessfulResults\<close> hand out refer to
  objects the log owns. Reading through the reference reads the object as it is in the
  heap at that moment, and is undefined when the object has been deleted.
\<close>

datatype results_ref = Caller SyncResults | Stored ptr

fun readRef :: "Heap \<Rightarrow> results_ref \<Rightarrow> SyncResults option" where
  "readRef h (Caller r) = Some r"
| "readRef h (Stored p) = deref (results h) p"

definition newSyncResults :: "SyncResults \<Rightarrow> Heap \<Rightarrow> ptr \<times> Heap" where
  "newSyncResults r h = (case alloc r (results h) of (p, s) \<Rightarrow> (p, h\<lparr>results := s\<rparr>))"

definition deleteSyncResults :: "ptr \<Rightarrow> Heap \<Rightarrow> Heap option" where
  "deleteSyncResults p h = map_option (\<lambda>s. h\<lparr>results := s\<rparr>) (release p (results h))"

definition newSyncLogPrivate :: "SyncLogPrivate \<Rightarrow> Heap \<Rightarrow> ptr \<times> Heap" where
  "newSyncLogPrivate d h = (case alloc d (privs h) of (p, s) \<Rightarrow> (p, h\<lparr>privs := s\<rparr>))"

definition modifyPrivate :: "ptr \<Rightarrow> (SyncLogPrivate \<Rightarrow> SyncLogPrivate) \<Rightarrow> Heap \<Rightarrow> Heap option" where
  "modifyPrivate p f h = do {
     d \<leftarrow> deref (privs h) p;
     s \<leftarrow> assign p (f d) (privs h);
     Some (h\<lparr>privs := s\<rparr>)
   }"

section \<open>SyncLog.cpp\<close>

text \<open>
  The functions of the file, in its order. Not modelled: \<open>syncResultPointerLessThan\<close>,
  whose only callers are the two sorts the source has commented out, and the destructors.
\<close>

definition isSyncSuccessful :: "SyncResults \<Rightarrow> bool" where
  "isSyncSuccessful aResults \<longleftrightarrow>
     majorCode aResults = SYNC_RESULT_SUCCESS
     \<and> minorCode aResults = NO_ERROR
     \<and> \<not> (syncTime aResults = None)"

subsection \<open>SyncLogPrivate\<close>

definition SyncLogPrivate_default :: SyncLogPrivate where
  "SyncLogPrivate_default =
     \<lparr>iProfileName = [], iResults = [], iLastSuccessfulResults = Null\<rparr>"

text \<open>The \<open>foreach\<close> of the copy constructor: one new result per result of the source.\<close>

fun copyResults :: "ptr list \<Rightarrow> Heap \<Rightarrow> (ptr list \<times> Heap) option" where
  "copyResults [] h = Some ([], h)"
| "copyResults (p # ps) h = do {
     r \<leftarrow> deref (results h) p;
     (q, h1) \<leftarrow> Some (newSyncResults r h);
     (qs, h2) \<leftarrow> copyResults ps h1;
     Some (q # qs, h2)
   }"

definition SyncLogPrivate_copy :: "SyncLogPrivate \<Rightarrow> Heap \<Rightarrow> (SyncLogPrivate \<times> Heap) option" where
  "SyncLogPrivate_copy aSource h = do {
     (qs, h1) \<leftarrow> copyResults (iResults aSource) h;
     (if iLastSuccessfulResults aSource \<noteq> Null
      then do {
        r \<leftarrow> deref (results h1) (iLastSuccessfulResults aSource);
        (q, h2) \<leftarrow> Some (newSyncResults r h1);
        Some (\<lparr>iProfileName = iProfileName aSource, iResults = qs,
                iLastSuccessfulResults = q\<rparr>, h2)
      }
      else Some (\<lparr>iProfileName = iProfileName aSource, iResults = qs,
                   iLastSuccessfulResults = Null\<rparr>, h1))
   }"

text \<open>
  \<open>updateLastSuccessfulResults\<close> runs on the private part at \<open>this\<close>. The condition is
  evaluated left to right as \<open>&&\<close> and \<open>||\<close> do: the cached result is read only when the
  new one is successful and the cache is not null. The argument is read for the
  condition, and read again for the copy, after the cache has been deleted.
\<close>

definition updateLastSuccessfulResults ::
  "results_order \<Rightarrow> ptr \<Rightarrow> results_ref \<Rightarrow> Heap \<Rightarrow> Heap option" where
  "updateLastSuccessfulResults lt this aResults h = do {
     d \<leftarrow> deref (privs h) this;
     r \<leftarrow> readRef h aResults;
     replace \<leftarrow>
       (if isSyncSuccessful r
        then (if iLastSuccessfulResults d = Null then Some True
              else do {
                cur \<leftarrow> deref (results h) (iLastSuccessfulResults d);
                Some (lt cur r)
              })
        else Some False);
     (if replace
      then do {
        h1 \<leftarrow> deleteSyncResults (iLastSuccessfulResults d) h;
        r' \<leftarrow> readRef h1 aResults;
        (q, h2) \<leftarrow> Some (newSyncResults r' h1);
        modifyPrivate this (\<lambda>d. d\<lparr>iLastSuccessfulResults := q\<rparr>) h2
      }
      else Some h)
   }"

subsection \<open>SyncLog\<close>

definition MAXLOGENTRIES :: nat where
  "MAXLOGENTRIES = 5"

definition SyncLog_fromName :: "string \<Rightarrow> Heap \<Rightarrow> (SyncLog \<times> Heap) option" where
  "SyncLog_fromName aProfileName h = do {
     (p, h1) \<leftarrow> Some (newSyncLogPrivate SyncLogPrivate_default h);
     h2 \<leftarrow> modifyPrivate p (\<lambda>d. d\<lparr>iProfileName := aProfileName\<rparr>) h1;
     Some (\<lparr>d_ptr = p\<rparr>, h2)
   }"

definition SyncLog_copy :: "SyncLog \<Rightarrow> Heap \<Rightarrow> (SyncLog \<times> Heap) option" where
  "SyncLog_copy aSource h = do {
     src \<leftarrow> deref (privs h) (d_ptr aSource);
     (d, h1) \<leftarrow> SyncLogPrivate_copy src h;
     (p, h2) \<leftarrow> Some (newSyncLogPrivate d h1);
     Some (\<lparr>d_ptr = p\<rparr>, h2)
   }"

definition setProfileName :: "SyncLog \<Rightarrow> string \<Rightarrow> Heap \<Rightarrow> Heap option" where
  "setProfileName this aProfileName h =
     modifyPrivate (d_ptr this) (\<lambda>d. d\<lparr>iProfileName := aProfileName\<rparr>) h"

definition profileName :: "SyncLog \<Rightarrow> Heap \<Rightarrow> (string \<times> Heap) option" where
  "profileName this h = do {
     d \<leftarrow> deref (privs h) (d_ptr this);
     Some (iProfileName d, h)
   }"

definition lastResults :: "SyncLog \<Rightarrow> Heap \<Rightarrow> (ptr \<times> Heap) option" where
  "lastResults this h = do {
     d \<leftarrow> deref (privs h) (d_ptr this);
     (if iResults d = [] then Some (Null, h) else Some (last (iResults d), h))
   }"

definition allResults :: "SyncLog \<Rightarrow> Heap \<Rightarrow> (ptr list \<times> Heap) option" where
  "allResults this h = do {
     d \<leftarrow> deref (privs h) (d_ptr this);
     Some (iResults d, h)
   }"

definition lastSuccessfulResults :: "SyncLog \<Rightarrow> Heap \<Rightarrow> (ptr \<times> Heap) option" where
  "lastSuccessfulResults this h = do {
     d \<leftarrow> deref (privs h) (d_ptr this);
     Some (iLastSuccessfulResults d, h)
   }"

text \<open>
  \<open>addResults\<close> deletes the oldest entry of a full list first and reads its argument
  afterwards, for the copy it appends and in \<open>updateLastSuccessfulResults\<close>.
\<close>

definition takeFirst :: "ptr \<Rightarrow> Heap \<Rightarrow> (ptr \<times> Heap) option" where
  "takeFirst this h = do {
     d \<leftarrow> deref (privs h) this;
     (case iResults d of
        [] \<Rightarrow> None
      | p # ps \<Rightarrow> do {
          h1 \<leftarrow> modifyPrivate this (\<lambda>d. d\<lparr>iResults := ps\<rparr>) h;
          Some (p, h1)
        })
   }"

definition addResults :: "results_order \<Rightarrow> SyncLog \<Rightarrow> results_ref \<Rightarrow> Heap \<Rightarrow> Heap option" where
  "addResults lt this aResults h = do {
     d \<leftarrow> deref (privs h) (d_ptr this);
     h1 \<leftarrow>
       (if length (iResults d) \<ge> MAXLOGENTRIES
        then do {
          (p, h') \<leftarrow> takeFirst (d_ptr this) h;
          deleteSyncResults p h'
        }
        else Some h);
     r \<leftarrow> readRef h1 aResults;
     (q, h2) \<leftarrow> Some (newSyncResults r h1);
     h3 \<leftarrow> modifyPrivate (d_ptr this) (\<lambda>d. d\<lparr>iResults := iResults d @ [q]\<rparr>) h2;
     updateLastSuccessfulResults lt (d_ptr this) aResults h3
   }"

text \<open>
  The loop of the constructor from a DOM element, over the sync results children. Each
  call of \<open>addResults\<close> receives a temporary.
\<close>

function readResults ::
  "results_order \<Rightarrow> results_reader \<Rightarrow> SyncLog \<Rightarrow> QDomCursor \<Rightarrow> Heap \<Rightarrow> Heap option" where
  "readResults lt fromXml this cur h =
     (if cur = [] then Some h
      else do {
        h1 \<leftarrow> addResults lt this (Caller (fromXml (hd cur))) h;
        readResults lt fromXml this (nextSiblingElement TAG_SYNC_RESULTS cur) h1
      })"
  by pat_completeness auto
termination
proof (relation "measure (\<lambda>(lt, fromXml, this, cur, h). length cur)")
  show "wf (measure (\<lambda>(lt, fromXml, this, cur, h). length cur))"
    by simp
next
  fix lt :: results_order and fromXml :: results_reader and this :: SyncLog
    and cur :: QDomCursor and h x2 :: Heap
  assume "cur \<noteq> []"
  then have "length (dropWhile (\<lambda>c. tagName c \<noteq> TAG_SYNC_RESULTS) (tl cur)) < length cur"
    using length_dropWhile_le [of "\<lambda>c. tagName c \<noteq> TAG_SYNC_RESULTS" "tl cur"]
    by (cases cur) auto
  then show "((lt, fromXml, this, nextSiblingElement TAG_SYNC_RESULTS cur, x2),
              (lt, fromXml, this, cur, h))
             \<in> measure (\<lambda>(lt, fromXml, this, cur, h). length cur)"
    by (simp add: nextSiblingElement_def)
qed

declare readResults.simps [simp del]

definition SyncLog_fromXml ::
  "results_order \<Rightarrow> results_reader \<Rightarrow> QDomElement \<Rightarrow> Heap \<Rightarrow> (SyncLog \<times> Heap) option" where
  "SyncLog_fromXml lt fromXml aRoot h = do {
     (p, h1) \<leftarrow> Some (newSyncLogPrivate SyncLogPrivate_default h);
     h2 \<leftarrow> modifyPrivate p (\<lambda>d. d\<lparr>iProfileName := attribute aRoot ATTR_NAME\<rparr>) h1;
     h3 \<leftarrow> readResults lt fromXml \<lparr>d_ptr = p\<rparr>
             (firstChildElement TAG_SYNC_RESULTS aRoot) h2;
     Some (\<lparr>d_ptr = p\<rparr>, h3)
   }"

text \<open>The \<open>foreach\<close> of \<open>toXml\<close>: one child per retained result, in list order.\<close>

fun appendResults ::
  "results_writer \<Rightarrow> ptr list \<Rightarrow> QDomElement \<Rightarrow> Heap \<Rightarrow> QDomElement option" where
  "appendResults toXmlR [] root h = Some root"
| "appendResults toXmlR (p # ps) root h = do {
     r \<leftarrow> deref (results h) p;
     appendResults toXmlR ps (appendChild (toXmlR r) root) h
   }"

definition toXml ::
  "results_order \<Rightarrow> results_writer \<Rightarrow> SyncLog \<Rightarrow> Heap \<Rightarrow> (QDomElement \<times> Heap) option" where
  "toXml lt toXmlR this h = do {
     d \<leftarrow> deref (privs h) (d_ptr this);
     emit \<leftarrow>
       (if iLastSuccessfulResults d \<noteq> Null
        then (case iResults d of
                [] \<Rightarrow> Some True
              | p # ps \<Rightarrow> do {
                  b \<leftarrow> deref (results h) (iLastSuccessfulResults d);
                  f \<leftarrow> deref (results h) p;
                  Some (lt b f)
                })
        else Some False);
     root1 \<leftarrow>
       (if emit
        then do {
          b \<leftarrow> deref (results h) (iLastSuccessfulResults d);
          Some (appendChild (toXmlR b)
                  (setAttribute ATTR_NAME (iProfileName d) (createElement TAG_SYNC_LOG)))
        }
        else Some (setAttribute ATTR_NAME (iProfileName d) (createElement TAG_SYNC_LOG)));
     root2 \<leftarrow> appendResults toXmlR (iResults d) root1 h;
     Some (root2, h)
   }"

section \<open>Observations, ownership and call sequences\<close>

text \<open>
  The state of a log as values, read from its private part: the profile name, the
  results behind the pointers of the list, in list order, and the result behind the cache
  pointer, if that is not null. There is no such state where a pointer dangles.
\<close>

record LogView =
  vName :: string
  vRetained :: "SyncResults list"
  vBest :: "SyncResults option"

fun derefAll :: "'a store \<Rightarrow> ptr list \<Rightarrow> 'a list option" where
  "derefAll s [] = Some []"
| "derefAll s (p # ps) = do {
     r \<leftarrow> deref s p;
     rs \<leftarrow> derefAll s ps;
     Some (r # rs)
   }"

definition derefNullable :: "'a store \<Rightarrow> ptr \<Rightarrow> 'a option option" where
  "derefNullable s p = (if p = Null then Some None else map_option Some (deref s p))"

definition observe :: "SyncLog \<Rightarrow> Heap \<Rightarrow> LogView option" where
  "observe this h = do {
     d \<leftarrow> deref (privs h) (d_ptr this);
     rs \<leftarrow> derefAll (results h) (iResults d);
     best \<leftarrow> derefNullable (results h) (iLastSuccessfulResults d);
     Some \<lparr>vName = iProfileName d, vRetained = rs, vBest = best\<rparr>
   }"

text \<open>
  The pointers a private part owns, and the state the constructors establish and every
  method keeps: the private part exists, and the pointers it owns are live and pairwise
  different.
\<close>

definition owned :: "SyncLogPrivate \<Rightarrow> ptr list" where
  "owned d =
     iResults d @ (if iLastSuccessfulResults d = Null then [] else [iLastSuccessfulResults d])"

definition valid :: "Heap \<Rightarrow> SyncLog \<Rightarrow> bool" where
  "valid h this =
     (case deref (privs h) (d_ptr this) of
        None \<Rightarrow> False
      | Some d \<Rightarrow> distinct (owned d) \<and> list_all (\<lambda>p. \<not> (deref (results h) p = None)) (owned d))"

definition footprint :: "Heap \<Rightarrow> ptr \<Rightarrow> ptr list" where
  "footprint h p = (case deref (privs h) p of None \<Rightarrow> [] | Some d \<Rightarrow> owned d)"

text \<open>Two logs that share neither their private part nor a result.\<close>

definition independent :: "Heap \<Rightarrow> SyncLog \<Rightarrow> SyncLog \<Rightarrow> bool" where
  "independent h a b \<longleftrightarrow>
     valid h a \<and> valid h b \<and> \<not> (d_ptr a = d_ptr b)
     \<and> list_all (\<lambda>p. p \<notin> set (footprint h (d_ptr b))) (footprint h (d_ptr a))"

text \<open>
  The private part behind \<open>p\<close> is \<open>d\<close>, the pointers of \<open>d\<close> are pairwise different,
  its list reads as \<open>rs\<close> and its cache as \<open>b\<close>.
\<close>

definition represents ::
  "Heap \<Rightarrow> ptr \<Rightarrow> SyncLogPrivate \<Rightarrow> SyncResults list \<Rightarrow> SyncResults option \<Rightarrow> bool" where
  "represents h p d rs b \<longleftrightarrow>
     deref (privs h) p = Some d \<and> distinct (owned d)
     \<and> derefAll (results h) (iResults d) = Some rs
     \<and> derefNullable (results h) (iLastSuccessfulResults d) = Some b"

text \<open>
  What a method running on the private part behind \<open>p\<close> may do to the heap: every other
  live private part keeps its value, every live result the part does not own keeps its
  value, and what the part owns afterwards it owned before or has allocated since.
\<close>

definition evolves :: "ptr \<Rightarrow> Heap \<Rightarrow> Heap \<Rightarrow> bool" where
  "evolves p h h' \<longleftrightarrow>
     (\<forall>q. q \<noteq> p \<longrightarrow> deref (privs h) q \<noteq> None \<longrightarrow> deref (privs h') q = deref (privs h) q)
     \<and> (\<forall>q. q \<notin> set (footprint h p) \<longrightarrow> deref (results h) q \<noteq> None
            \<longrightarrow> deref (results h') q = deref (results h) q)
     \<and> (\<forall>q \<in> set (footprint h' p). q \<in> set (footprint h p) \<or> deref (results h) q = None)"

text \<open>A caller recording a sequence of results, one call of \<open>addResults\<close> each.\<close>

fun addResultsSeq :: "results_order \<Rightarrow> SyncLog \<Rightarrow> results_ref list \<Rightarrow> Heap \<Rightarrow> Heap option" where
  "addResultsSeq lt this [] h = Some h"
| "addResultsSeq lt this (r # rs) h = do {
     h1 \<leftarrow> addResults lt this r h;
     addResultsSeq lt this rs h1
   }"

text \<open>
  A caller that records the oldest retained result of a log once more, as in
  \<open>log.addResults(*log.allResults().first())\<close>: the argument refers to the object the
  log owns. \<open>QList::first\<close> on an empty list is undefined.
\<close>

definition recordOldestAgain :: "results_order \<Rightarrow> SyncLog \<Rightarrow> Heap \<Rightarrow> Heap option" where
  "recordOldestAgain lt this h = do {
     (ps, h1) \<leftarrow> allResults this h;
     (case ps of
        [] \<Rightarrow> None
      | p # qs \<Rightarrow> addResults lt this (Stored p) h1)
   }"

text \<open>
  The mutators of a log, each \<open>addResults\<close> with a result of the caller's own, and a
  caller that mutates an original log and its copy in any interleaving.
\<close>

datatype mutation = AddResults SyncResults | SetProfileName string

datatype target = Original | Duplicate

fun mutate :: "results_order \<Rightarrow> SyncLog \<Rightarrow> mutation \<Rightarrow> Heap \<Rightarrow> Heap option" where
  "mutate lt this (AddResults r) h = addResults lt this (Caller r) h"
| "mutate lt this (SetProfileName n) h = setProfileName this n h"

fun mutateBoth ::
  "results_order \<Rightarrow> SyncLog \<Rightarrow> SyncLog \<Rightarrow> (target \<times> mutation) list \<Rightarrow> Heap \<Rightarrow> Heap option" where
  "mutateBoth lt a b [] h = Some h"
| "mutateBoth lt a b ((t, m) # ms) h = do {
     h1 \<leftarrow> mutate lt (case t of Original \<Rightarrow> a | Duplicate \<Rightarrow> b) m h;
     mutateBoth lt a b ms h1
   }"

definition onlyOn :: "target \<Rightarrow> (target \<times> mutation) list \<Rightarrow> (target \<times> mutation) list" where
  "onlyOn t ms = filter (\<lambda>tm. fst tm = t) ms"

text \<open>
  Serializing a log that recorded the caller's results \<open>rs\<close> from empty, constructing a
  second log from the element, and serializing that one: what is observed of the first
  log, its element, what is observed of the second log, and its element.
\<close>

record RoundTrip =
  rtBefore :: LogView
  rtDocument :: QDomElement
  rtAfter :: LogView
  rtDocumentAgain :: QDomElement

definition roundTrip ::
  "results_order \<Rightarrow> results_writer \<Rightarrow> results_reader \<Rightarrow> string \<Rightarrow> SyncResults list
     \<Rightarrow> Heap \<Rightarrow> RoundTrip option" where
  "roundTrip lt toXmlR fromXmlR n rs h = do {
     (this, h0) \<leftarrow> SyncLog_fromName n h;
     h1 \<leftarrow> addResultsSeq lt this (map Caller rs) h0;
     v \<leftarrow> observe this h1;
     (e, h2) \<leftarrow> toXml lt toXmlR this h1;
     (that, h3) \<leftarrow> SyncLog_fromXml lt fromXmlR e h2;
     v' \<leftarrow> observe that h3;
     (e', h4) \<leftarrow> toXml lt toXmlR that h3;
     Some \<lparr>rtBefore = v, rtDocument = e, rtAfter = v', rtDocumentAgain = e'\<rparr>
   }"

section \<open>What is observed, as values\<close>

text \<open>
  The effect of one \<open>addResults\<close> on what is observed: the oldest entry leaves when the
  list is full, the new result joins at the end, and it becomes the best successful
  result when it is successful and the cache is empty or smaller.
\<close>

definition recordResult :: "results_order \<Rightarrow> SyncResults \<Rightarrow> LogView \<Rightarrow> LogView" where
  "recordResult lt r v =
     \<lparr>vName = vName v,
      vRetained = (if length (vRetained v) \<ge> MAXLOGENTRIES then tl (vRetained v)
                   else vRetained v) @ [r],
      vBest = (if isSyncSuccessful r \<and> (case vBest v of None \<Rightarrow> True | Some b \<Rightarrow> lt b r)
               then Some r else vBest v)\<rparr>"

definition recordAll :: "results_order \<Rightarrow> SyncResults list \<Rightarrow> LogView \<Rightarrow> LogView" where
  "recordAll lt rs v = foldl (\<lambda>v r. recordResult lt r v) v rs"

definition emptyView :: "string \<Rightarrow> LogView" where
  "emptyView n = \<lparr>vName = n, vRetained = [], vBest = None\<rparr>"

text \<open>The effect of a mutator on what is observed of its log.\<close>

fun applyMutation :: "results_order \<Rightarrow> LogView \<Rightarrow> mutation \<Rightarrow> LogView" where
  "applyMutation lt v (AddResults r) = recordResult lt r v"
| "applyMutation lt v (SetProfileName n) = v\<lparr>vName := n\<rparr>"

text \<open>
  The results a log writes into its document, in document order: the best successful
  result when it gets a node of its own, then the retained results.
\<close>

definition bestNode :: "results_order \<Rightarrow> LogView \<Rightarrow> SyncResults list" where
  "bestNode lt v =
     (case vBest v of
        None \<Rightarrow> []
      | Some b \<Rightarrow> (case vRetained v of
                     [] \<Rightarrow> [b]
                   | f # fs \<Rightarrow> if lt b f then [b] else []))"

definition viewXml :: "results_order \<Rightarrow> results_writer \<Rightarrow> LogView \<Rightarrow> QDomElement" where
  "viewXml lt toXmlR v =
     QDomElement TAG_SYNC_LOG [(ATTR_NAME, vName v)]
       (map toXmlR (bestNode lt v @ vRetained v))"

text \<open>The sync results children of an element, in document order.\<close>

definition resultsChildren :: "QDomElement \<Rightarrow> QDomElement list" where
  "resultsChildren e = filter (\<lambda>c. tagName c = TAG_SYNC_RESULTS) (childNodes e)"

text \<open>
  The order the spec asks of results: irreflexive, transitive, and any two different
  results are comparable.
\<close>

definition strictTotalOrder :: "results_order \<Rightarrow> bool" where
  "strictTotalOrder lt \<longleftrightarrow>
     (\<forall>x. \<not> lt x x) \<and> (\<forall>x y z. lt x y \<longrightarrow> lt y z \<longrightarrow> lt x z)
     \<and> (\<forall>x y. x \<noteq> y \<longrightarrow> lt x y \<or> lt y x)"

text \<open>\<open>m\<close> is the greatest element of \<open>xs\<close>, or nothing when \<open>xs\<close> is empty.\<close>

definition isMaximumOf :: "results_order \<Rightarrow> SyncResults list \<Rightarrow> SyncResults option \<Rightarrow> bool" where
  "isMaximumOf lt xs m =
     (case m of
        None \<Rightarrow> xs = []
      | Some b \<Rightarrow> b \<in> set xs \<and> list_all (\<lambda>x. x = b \<or> lt x b) xs)"

text \<open>
  Results recorded in chronological order: no result is smaller than one recorded before
  it. A writer and a reader of results fit each other when reading what was written
  gives the result back and the writer tags its element as sync results.
\<close>

definition chronological :: "results_order \<Rightarrow> SyncResults list \<Rightarrow> bool" where
  "chronological lt rs = sorted_wrt (\<lambda>x y. \<not> lt y x) rs"

definition faithfulCodec :: "results_writer \<Rightarrow> results_reader \<Rightarrow> bool" where
  "faithfulCodec toXmlR fromXmlR \<longleftrightarrow>
     (\<forall>r. fromXmlR (toXmlR r) = r \<and> tagName (toXmlR r) = TAG_SYNC_RESULTS)"

section \<open>Sample data\<close>

text \<open>
  Concrete inputs on which the theorems below are exercised: an empty heap, an order that
  compares results by sync time (null first) and then by the two codes, a successful
  and a failed result for a given time.
\<close>

definition emptyHeap :: Heap where
  "emptyHeap = \<lparr>privs = [], results = []\<rparr>"

definition timeRank :: "SyncResults \<Rightarrow> nat" where
  "timeRank r = (case syncTime r of None \<Rightarrow> 0 | Some t \<Rightarrow> Suc t)"

definition sampleOrder :: results_order where
  "sampleOrder x y \<longleftrightarrow>
     timeRank x < timeRank y
     \<or> (timeRank x = timeRank y
        \<and> (majorCode x < majorCode y
           \<or> (majorCode x = majorCode y \<and> minorCode x < minorCode y)))"

definition okAt :: "nat \<Rightarrow> SyncResults" where
  "okAt t = \<lparr>majorCode = SYNC_RESULT_SUCCESS, minorCode = NO_ERROR, syncTime = Some t\<rparr>"

definition failedAt :: "nat \<Rightarrow> SyncResults" where
  "failedAt t = \<lparr>majorCode = 1, minorCode = 4, syncTime = Some t\<rparr>"

text \<open>The heap after a log was constructed empty for the profile \<open>''p''\<close>.\<close>

definition freshHeap :: Heap where
  "freshHeap =
     \<lparr>privs = [Some \<lparr>iProfileName = ''p'', iResults = [], iLastSuccessfulResults = Null\<rparr>],
      results = []\<rparr>"

text \<open>
  A log in a heap: the state after \<open>okAt 3\<close> was recorded on a log constructed empty for
  the profile \<open>''p''\<close>.
\<close>

definition sampleHeap :: Heap where
  "sampleHeap =
     \<lparr>privs = [Some \<lparr>iProfileName = ''p'', iResults = [Ptr 0],
                      iLastSuccessfulResults = Ptr 1\<rparr>],
      results = [Some (okAt 3), Some (okAt 3)]\<rparr>"

definition sampleLog :: SyncLog where
  "sampleLog = \<lparr>d_ptr = Ptr 0\<rparr>"

text \<open>
  The state after \<open>okAt 1\<close> and then five failed results were recorded on a log
  constructed empty: the successful result has left the retained list and is still the
  best successful one.
\<close>

definition evictedHeap :: Heap where
  "evictedHeap =
     \<lparr>privs = [Some \<lparr>iProfileName = ''p'',
                      iResults = [Ptr 2, Ptr 3, Ptr 4, Ptr 5, Ptr 6],
                      iLastSuccessfulResults = Ptr 1\<rparr>],
      results = [None, Some (okAt 1), Some (failedAt 2), Some (failedAt 3),
                 Some (failedAt 4), Some (failedAt 5), Some (failedAt 6)]\<rparr>"

text \<open>The heap after \<open>sampleLog\<close> was copied in \<open>sampleHeap\<close>; the copy is at address 1.\<close>

definition copiedHeap :: Heap where
  "copiedHeap =
     \<lparr>privs = [Some \<lparr>iProfileName = ''p'', iResults = [Ptr 0],
                      iLastSuccessfulResults = Ptr 1\<rparr>,
                Some \<lparr>iProfileName = ''p'', iResults = [Ptr 2],
                      iLastSuccessfulResults = Ptr 3\<rparr>],
      results = [Some (okAt 3), Some (okAt 3), Some (okAt 3), Some (okAt 3)]\<rparr>"

definition copiedLog :: SyncLog where
  "copiedLog = \<lparr>d_ptr = Ptr 1\<rparr>"

text \<open>
  A reader and a writer of results that invert each other: the codes and the sync time
  are written as attributes, numbers in unary.
\<close>

definition encodeInt :: "int \<Rightarrow> string" where
  "encodeInt i = (if i < 0 then CHR ''-'' else CHR ''+'') # replicate (nat \<bar>i\<bar>) CHR ''1''"

definition decodeInt :: "string \<Rightarrow> int" where
  "decodeInt s =
     (case s of [] \<Rightarrow> 0
      | c # cs \<Rightarrow> if c = CHR ''-'' then - int (length cs) else int (length cs))"

definition encodeTime :: "nat option \<Rightarrow> string" where
  "encodeTime t = (case t of None \<Rightarrow> [] | Some n \<Rightarrow> CHR ''T'' # replicate n CHR ''1'')"

definition decodeTime :: "string \<Rightarrow> nat option" where
  "decodeTime s = (case s of [] \<Rightarrow> None | c # cs \<Rightarrow> Some (length cs))"

definition sampleToXml :: results_writer where
  "sampleToXml r =
     QDomElement TAG_SYNC_RESULTS
       [(''majorcode'', encodeInt (majorCode r)), (''minorcode'', encodeInt (minorCode r)),
        (''time'', encodeTime (syncTime r))] []"

definition sampleFromXml :: results_reader where
  "sampleFromXml e =
     \<lparr>majorCode = decodeInt (attribute e ''majorcode''),
      minorCode = decodeInt (attribute e ''minorcode''),
      syncTime = decodeTime (attribute e ''time'')\<rparr>"

section \<open>Properties of the heap\<close>

lemma deref_append_old: "deref s p = Some v \<Longrightarrow> deref (s @ xs) p = Some v"
  by (cases p) (auto simp: nth_append split: if_splits)

lemma deref_append_live: "deref s p \<noteq> None \<Longrightarrow> deref (s @ xs) p = deref s p"
  by (cases p) (auto simp: nth_append split: if_splits)

lemma deref_fresh: "deref s (Ptr (length s)) = None"
  by simp

lemma deref_update_other: "p \<noteq> Ptr a \<Longrightarrow> deref (s[a := x]) p = deref s p"
  by (cases p) auto

lemma deref_update_same: "deref s (Ptr a) = Some v \<Longrightarrow> deref (s[a := x]) (Ptr a) = x"
  by (auto split: if_splits)

lemma derefAll_append_old:
  "derefAll s ps = Some rs \<Longrightarrow> derefAll (s @ xs) ps = Some rs"
  by (induction ps arbitrary: rs) (auto simp: deref_append_old split: Option.bind_splits)

lemma derefAll_update_other:
  "Ptr a \<notin> set ps \<Longrightarrow> derefAll (s[a := x]) ps = derefAll s ps"
  by (induction ps) (auto simp: deref_update_other  simp del: deref.simps)

lemma derefAll_snoc:
  "derefAll s (ps @ [p]) = do { rs \<leftarrow> derefAll s ps; r \<leftarrow> deref s p; Some (rs @ [r]) }"
  by (induction ps) (auto split: Option.bind_splits)

lemma derefAll_live:
  "list_all (\<lambda>p. \<not> (deref s p = None)) ps \<Longrightarrow> \<exists>rs. derefAll s ps = Some rs"
  by (induction ps) auto

lemma derefAll_Some_live:
  "derefAll s ps = Some rs \<Longrightarrow> p \<in> set ps \<Longrightarrow> deref s p \<noteq> None"
  by (induction ps arbitrary: rs) (auto split: Option.bind_splits)

lemma derefAll_length:
  "derefAll s ps = Some rs \<Longrightarrow> length rs = length ps"
  by (induction ps arbitrary: rs) (auto split: Option.bind_splits)

lemma derefNullable_append_old:
  "derefNullable s p = Some b \<Longrightarrow> derefNullable (s @ xs) p = Some b"
  by (auto simp: derefNullable_def deref_append_old split: if_splits)

lemma derefNullable_update_other:
  "p \<noteq> Ptr a \<Longrightarrow> derefNullable (s[a := x]) p = derefNullable s p"
  by (simp add: derefNullable_def deref_update_other del: deref.simps)

text \<open>What the heap primitives return on live pointers.\<close>

lemma modifyPrivate_live:
  "deref (privs h) p = Some d \<Longrightarrow>
   \<exists>h'. modifyPrivate p f h = Some h' \<and> results h' = results h
      \<and> deref (privs h') p = Some (f d)
      \<and> (\<forall>q. q \<noteq> p \<longrightarrow> deref (privs h') q = deref (privs h) q)"
  by (cases p) (auto simp: modifyPrivate_def deref_update_other split: if_splits)

lemma deleteSyncResults_live:
  "deref (results h) p \<noteq> None \<Longrightarrow>
   \<exists>h'. deleteSyncResults p h = Some h' \<and> privs h' = privs h
      \<and> (\<forall>q. q \<noteq> p \<longrightarrow> deref (results h') q = deref (results h) q)
      \<and> length (results h') = length (results h)
      \<and> (\<forall>ps. p \<notin> set ps \<longrightarrow> derefAll (results h') ps = derefAll (results h) ps)"
  by (cases p) (auto simp: deleteSyncResults_def derefAll_update_other deref_update_other split: if_splits)

lemma deleteSyncResults_Null: "deleteSyncResults Null h = Some h"
  by (simp add: deleteSyncResults_def)

lemma newSyncResults_fresh:
  "newSyncResults r h = (q, h') \<Longrightarrow>
     privs h' = privs h \<and> deref (results h) q = None
     \<and> deref (results h') q = Some r
     \<and> (\<forall>p. deref (results h) p \<noteq> None \<longrightarrow> deref (results h') p = deref (results h) p)
     \<and> (\<forall>ps rs. derefAll (results h) ps = Some rs \<longrightarrow> derefAll (results h') ps = Some rs)"
  by (auto simp: newSyncResults_def alloc_def derefAll_append_old nth_append deref_append_live simp del: deref.simps) simp_all


lemma newSyncResults_ptr: "newSyncResults r h = (q, h') \<Longrightarrow> q = Ptr (length (results h))"
  by (auto simp: newSyncResults_def alloc_def)

lemma deleteSyncResults_nullable:
  assumes "derefNullable (results h) p = Some b"
  shows "\<exists>h'. deleteSyncResults p h = Some h' \<and> privs h' = privs h
      \<and> (\<forall>q. q \<noteq> p \<longrightarrow> deref (results h') q = deref (results h) q)
      \<and> length (results h') = length (results h)
      \<and> (\<forall>ps. p \<notin> set ps \<longrightarrow> derefAll (results h') ps = derefAll (results h) ps)"
proof (cases "p = Null")
  case True
  then show ?thesis by (simp add: deleteSyncResults_Null)
next
  case False
  with assms have "deref (results h) p \<noteq> None"
    by (auto simp: derefNullable_def)
  then show ?thesis by (rule deleteSyncResults_live)
qed

lemma evolves_refl: "evolves p h h"
  by (simp add: evolves_def)

lemma evolves_trans:
  assumes "evolves p h0 h1" "evolves p h1 h2"
  shows "evolves p h0 h2"
  unfolding evolves_def
proof (intro conjI allI impI ballI)
  fix q assume "q \<noteq> p" "deref (privs h0) q \<noteq> None"
  then show "deref (privs h2) q = deref (privs h0) q"
    using assms by (simp add: evolves_def)
next
  fix q assume q: "q \<notin> set (footprint h0 p)" "deref (results h0) q \<noteq> None"
  then have 1: "deref (results h1) q = deref (results h0) q"
    using assms(1) by (simp add: evolves_def)
  have "q \<notin> set (footprint h1 p)"
    using assms(1) q by (auto simp: evolves_def)
  then show "deref (results h2) q = deref (results h0) q"
    using assms(2) 1 q by (simp add: evolves_def)
next
  fix q assume q: "q \<in> set (footprint h2 p)"
  then have "q \<in> set (footprint h1 p) \<or> deref (results h1) q = None"
    using assms(2) by (auto simp: evolves_def)
  then show "q \<in> set (footprint h0 p) \<or> deref (results h0) q = None"
    using assms(1) by (auto simp: evolves_def)
qed

lemma represents_footprint: "represents h p d rs b \<Longrightarrow> footprint h p = owned d"
  by (simp add: represents_def footprint_def)

section \<open>The steps of addResults\<close>

lemma update_keep:
  assumes "\<not> (isSyncSuccessful r \<and> (case b of None \<Rightarrow> True | Some c \<Rightarrow> lt c r))"
    and "represents h p d rs b"
  shows "updateLastSuccessfulResults lt p (Caller r) h = Some h"
  using assms
  by (auto simp: updateLastSuccessfulResults_def represents_def derefNullable_def
      split: option.splits if_splits)

lemma update_replace:
  assumes c: "isSyncSuccessful r \<and> (case b of None \<Rightarrow> True | Some c \<Rightarrow> lt c r)"
    and rep: "represents h p d rs b"
  shows "\<exists>h' q. updateLastSuccessfulResults lt p (Caller r) h = Some h'
           \<and> represents h' p (d\<lparr>iLastSuccessfulResults := q\<rparr>) rs (Some r)
           \<and> evolves p h h'"
proof -
  let ?l = "iLastSuccessfulResults d"
  from rep have d: "deref (privs h) p = Some d" and dist: "distinct (owned d)"
    and rs: "derefAll (results h) (iResults d) = Some rs"
    and b: "derefNullable (results h) ?l = Some b"
    by (simp_all add: represents_def)
  have notin: "?l \<notin> set (iResults d)"
    using dist rs by (auto simp: owned_def dest: derefAll_Some_live split: if_splits)
  from deleteSyncResults_nullable [OF b] obtain h1 where
    h1: "deleteSyncResults ?l h = Some h1" "privs h1 = privs h"
    and h1o: "\<And>q. q \<noteq> ?l \<Longrightarrow> deref (results h1) q = deref (results h) q"
    and h1n: "length (results h1) = length (results h)"
    and h1a: "derefAll (results h1) (iResults d) = derefAll (results h) (iResults d)"
    using notin by blast
  obtain q h2 where n: "newSyncResults r h1 = (q, h2)"
    by (cases "newSyncResults r h1")
  note f = newSyncResults_fresh [OF n]
  from f have h2p: "privs h2 = privs h" using h1 by simp
  from modifyPrivate_live [of h2 p d "\<lambda>d. d\<lparr>iLastSuccessfulResults := q\<rparr>"] d h2p
  obtain h3 where h3: "modifyPrivate p (\<lambda>d. d\<lparr>iLastSuccessfulResults := q\<rparr>) h2 = Some h3"
    "results h3 = results h2" "deref (privs h3) p = Some (d\<lparr>iLastSuccessfulResults := q\<rparr>)"
    and h3o: "\<And>q'. q' \<noteq> p \<Longrightarrow> deref (privs h3) q' = deref (privs h) q'"
    by auto
  have run: "updateLastSuccessfulResults lt p (Caller r) h = Some h3"
    using c d b h1 n h3
    by (auto simp: updateLastSuccessfulResults_def derefNullable_def split: option.splits if_splits)
  have qfresh: "q \<notin> set (iResults d)"
    using f h1a rs by (auto dest: derefAll_Some_live)
  have rep': "represents h3 p (d\<lparr>iLastSuccessfulResults := q\<rparr>) rs (Some r)"
    using h3 f h1a rs dist qfresh
    by (auto simp: represents_def owned_def derefNullable_def)
  have qold: "deref (results h) q = None"
    using newSyncResults_ptr [OF n] h1n by simp
  have ev: "evolves p h h3"
    unfolding evolves_def
  proof (intro conjI allI impI ballI)
    fix q' assume "q' \<noteq> p" 
    then show "deref (privs h3) q' = deref (privs h) q'" by (rule h3o)
  next
    fix q' assume q': "q' \<notin> set (footprint h p)" "deref (results h) q' \<noteq> None"
    then have "q' \<noteq> ?l \<or> ?l = Null"
      using d by (auto simp: footprint_def owned_def split: if_splits)
    then have "deref (results h1) q' = deref (results h) q'"
      using h1o q' by (cases "q' = ?l") auto
    then show "deref (results h3) q' = deref (results h) q'"
      using f h3 q' by auto
  next
    fix q' assume "q' \<in> set (footprint h3 p)"
    then show "q' \<in> set (footprint h p) \<or> deref (results h) q' = None"
      using h3 d qold by (auto simp: footprint_def owned_def split: if_splits)
  qed
  from run rep' ev show ?thesis by blast
qed


lemma update_sim:
  assumes rep: "represents h p d rs b"
  shows "\<exists>h' d'. updateLastSuccessfulResults lt p (Caller r) h = Some h'
           \<and> represents h' p d' rs
                (if isSyncSuccessful r \<and> (case b of None \<Rightarrow> True | Some c \<Rightarrow> lt c r)
                 then Some r else b)
           \<and> iProfileName d' = iProfileName d \<and> iResults d' = iResults d
           \<and> (isSyncSuccessful r \<or> iLastSuccessfulResults d' = iLastSuccessfulResults d)
           \<and> evolves p h h'"
proof (cases "isSyncSuccessful r \<and> (case b of None \<Rightarrow> True | Some c \<Rightarrow> lt c r)")
  case True
  from update_replace [where lt = lt and r = r and b = b, OF True rep] obtain h' q where
    "updateLastSuccessfulResults lt p (Caller r) h = Some h'"
    "represents h' p (d\<lparr>iLastSuccessfulResults := q\<rparr>) rs (Some r)" "evolves p h h'"
    by blast
  with True show ?thesis
    by (intro exI [of _ h'] exI [of _ "d\<lparr>iLastSuccessfulResults := q\<rparr>"]) simp
next
  case False
  from update_keep [where lt = lt and r = r and b = b, OF False rep] rep False show ?thesis
    by (intro exI [of _ h] exI [of _ d]) (auto simp: evolves_refl)
qed

lemma evict_sim:
  assumes rep: "represents h p d rs b" and ne: "iResults d \<noteq> []"
  shows "\<exists>q h1 h2. takeFirst p h = Some (q, h1) \<and> deleteSyncResults q h1 = Some h2
           \<and> represents h2 p (d\<lparr>iResults := tl (iResults d)\<rparr>) (tl rs) b
           \<and> evolves p h h2"
proof -
  from ne obtain q qs where qs: "iResults d = q # qs" by (cases "iResults d") auto
  from rep have d: "deref (privs h) p = Some d" and dist: "distinct (owned d)"
    and rs: "derefAll (results h) (iResults d) = Some rs"
    and b: "derefNullable (results h) (iLastSuccessfulResults d) = Some b"
    by (simp_all add: represents_def)
  from rs qs obtain x xs where x: "deref (results h) q = Some x" "derefAll (results h) qs = Some xs"
    "rs = x # xs"
    by (auto split: Option.bind_splits)
  from modifyPrivate_live [OF d, of "\<lambda>d. d\<lparr>iResults := qs\<rparr>"]
  obtain h1 where h1: "modifyPrivate p (\<lambda>d. d\<lparr>iResults := qs\<rparr>) h = Some h1"
    "results h1 = results h" "deref (privs h1) p = Some (d\<lparr>iResults := qs\<rparr>)"
    and h1o: "\<And>q'. q' \<noteq> p \<Longrightarrow> deref (privs h1) q' = deref (privs h) q'"
    by auto
  have tf: "takeFirst p h = Some (q, h1)"
    using d qs h1 by (simp add: takeFirst_def)
  have "deref (results h1) q \<noteq> None" using x h1 by simp
  from deleteSyncResults_live [OF this] obtain h2 where
    h2: "deleteSyncResults q h1 = Some h2" "privs h2 = privs h1"
    and h2o: "\<And>q'. q' \<noteq> q \<Longrightarrow> deref (results h2) q' = deref (results h1) q'"
    and h2a: "\<And>ps. q \<notin> set ps \<Longrightarrow> derefAll (results h2) ps = derefAll (results h1) ps"
    by blast
  have qn: "q \<notin> set qs" "q \<noteq> iLastSuccessfulResults d"
    using dist qs x by (auto simp: owned_def split: if_splits)
  have rep': "represents h2 p (d\<lparr>iResults := tl (iResults d)\<rparr>) (tl rs) b"
    using h1 h2 qs x qn dist b h2a [of qs] h2o [of "iLastSuccessfulResults d"]
    by (auto simp: represents_def owned_def derefNullable_def split: if_splits)
  have ev: "evolves p h h2"
    unfolding evolves_def
  proof (intro conjI allI impI ballI)
    fix q' assume "q' \<noteq> p"
    then show "deref (privs h2) q' = deref (privs h) q'" using h1o h2 by simp
  next
    fix q' assume q': "q' \<notin> set (footprint h p)" "deref (results h) q' \<noteq> None"
    then have "q' \<noteq> q"
      using d qs by (auto simp: footprint_def owned_def)
    then show "deref (results h2) q' = deref (results h) q'"
      using h2o h1 by simp
  next
    fix q' assume "q' \<in> set (footprint h2 p)"
    then show "q' \<in> set (footprint h p) \<or> deref (results h) q' = None"
      using h1 h2 d qs by (auto simp: footprint_def owned_def split: if_splits)
  qed
  from tf h2 rep' ev show ?thesis by blast
qed

lemma append_sim:
  assumes rep: "represents h p d rs b" and n: "newSyncResults r h = (q, h1)"
  shows "\<exists>h2. modifyPrivate p (\<lambda>d. d\<lparr>iResults := iResults d @ [q]\<rparr>) h1 = Some h2
           \<and> represents h2 p (d\<lparr>iResults := iResults d @ [q]\<rparr>) (rs @ [r]) b
           \<and> evolves p h h2"
proof -
  from rep have d: "deref (privs h) p = Some d" and dist: "distinct (owned d)"
    and rs: "derefAll (results h) (iResults d) = Some rs"
    and b: "derefNullable (results h) (iLastSuccessfulResults d) = Some b"
    by (simp_all add: represents_def)
  note f = newSyncResults_fresh [OF n]
  from f d have d1: "deref (privs h1) p = Some d" by simp
  from modifyPrivate_live [OF d1, of "\<lambda>d. d\<lparr>iResults := iResults d @ [q]\<rparr>"]
  obtain h2 where h2: "modifyPrivate p (\<lambda>d. d\<lparr>iResults := iResults d @ [q]\<rparr>) h1 = Some h2"
    "results h2 = results h1" "deref (privs h2) p = Some (d\<lparr>iResults := iResults d @ [q]\<rparr>)"
    and h2o: "\<And>q'. q' \<noteq> p \<Longrightarrow> deref (privs h2) q' = deref (privs h1) q'"
    by auto
  from f have qn: "deref (results h) q = None" by blast
  have qfresh: "q \<notin> set (iResults d)" "q \<noteq> iLastSuccessfulResults d \<or> iLastSuccessfulResults d = Null"
    using qn rs b by (auto dest: derefAll_Some_live simp: derefNullable_def split: if_splits)
  have b': "derefNullable (results h1) (iLastSuccessfulResults d) = Some b"
    using b f by (auto simp: derefNullable_def split: if_splits)
  have rep': "represents h2 p (d\<lparr>iResults := iResults d @ [q]\<rparr>) (rs @ [r]) b"
    using h2 f rs dist qfresh b'
    by (auto simp: represents_def owned_def derefAll_snoc split: if_splits)
  have ev: "evolves p h h2"
    unfolding evolves_def
  proof (intro conjI allI impI ballI)
    fix q' assume "q' \<noteq> p"
    then show "deref (privs h2) q' = deref (privs h) q'" using h2o f by simp
  next
    fix q' assume "q' \<notin> set (footprint h p)" "deref (results h) q' \<noteq> None"
    then show "deref (results h2) q' = deref (results h) q'"
      using h2 f by simp
  next
    fix q' assume "q' \<in> set (footprint h2 p)"
    then show "q' \<in> set (footprint h p) \<or> deref (results h) q' = None"
      using h2 d f by (auto simp: footprint_def owned_def split: if_splits)
  qed
  from h2 rep' ev show ?thesis by blast
qed


lemma addResults_rep:
  assumes rep: "represents h (d_ptr this) d rs b"
  shows "\<exists>h' d'. addResults lt this (Caller r) h = Some h'
           \<and> represents h' (d_ptr this) d'
                ((if length rs \<ge> MAXLOGENTRIES then tl rs else rs) @ [r])
                (if isSyncSuccessful r \<and> (case b of None \<Rightarrow> True | Some c \<Rightarrow> lt c r)
                 then Some r else b)
           \<and> iProfileName d' = iProfileName d
           \<and> (isSyncSuccessful r \<or> iLastSuccessfulResults d' = iLastSuccessfulResults d)
           \<and> evolves (d_ptr this) h h'"
proof -
  let ?p = "d_ptr this"
  let ?rs1 = "if length rs \<ge> MAXLOGENTRIES then tl rs else rs"
  from rep have d: "deref (privs h) ?p = Some d"
    and len: "length rs = length (iResults d)"
    by (auto simp: represents_def dest: derefAll_length)
  have "\<exists>h1 d1. (if length (iResults d) \<ge> MAXLOGENTRIES
                  then do { (q, h') \<leftarrow> takeFirst ?p h; deleteSyncResults q h' }
                  else Some h) = Some h1
          \<and> represents h1 ?p d1 ?rs1 b \<and> iProfileName d1 = iProfileName d
          \<and> iLastSuccessfulResults d1 = iLastSuccessfulResults d \<and> evolves ?p h h1"
  proof (cases "length (iResults d) \<ge> MAXLOGENTRIES")
    case True
    then have "iResults d \<noteq> []" by (auto simp: MAXLOGENTRIES_def)
    from evict_sim [OF rep this] obtain q h1 h2 where
      "takeFirst ?p h = Some (q, h1)" "deleteSyncResults q h1 = Some h2"
      "represents h2 ?p (d\<lparr>iResults := tl (iResults d)\<rparr>) (tl rs) b" "evolves ?p h h2"
      by blast
    with True len show ?thesis
      by (intro exI [of _ h2] exI [of _ "d\<lparr>iResults := tl (iResults d)\<rparr>"]) simp
  next
    case False
    with rep len show ?thesis
      by (intro exI [of _ h] exI [of _ d]) (simp add: evolves_refl)
  qed
  then obtain h1 d1 where
    s1: "(if length (iResults d) \<ge> MAXLOGENTRIES
          then do { (q, h') \<leftarrow> takeFirst ?p h; deleteSyncResults q h' }
          else Some h) = Some h1"
    and r1: "represents h1 ?p d1 ?rs1 b" and n1: "iProfileName d1 = iProfileName d"
    and l1: "iLastSuccessfulResults d1 = iLastSuccessfulResults d"
    and e1: "evolves ?p h h1"
    by blast
  obtain q h2 where s2: "newSyncResults r h1 = (q, h2)"
    by (cases "newSyncResults r h1")
  from append_sim [OF r1 s2] obtain h3 where
    s3: "modifyPrivate ?p (\<lambda>d. d\<lparr>iResults := iResults d @ [q]\<rparr>) h2 = Some h3"
    and r3: "represents h3 ?p (d1\<lparr>iResults := iResults d1 @ [q]\<rparr>) (?rs1 @ [r]) b"
    and e3: "evolves ?p h1 h3"
    by blast
  from update_sim [OF r3, of lt r] obtain h4 d4 where
    s4: "updateLastSuccessfulResults lt ?p (Caller r) h3 = Some h4"
    and r4: "represents h4 ?p d4 (?rs1 @ [r])
               (if isSyncSuccessful r \<and> (case b of None \<Rightarrow> True | Some c \<Rightarrow> lt c r)
                then Some r else b)"
    and n4: "iProfileName d4 = iProfileName (d1\<lparr>iResults := iResults d1 @ [q]\<rparr>)"
    and l4: "isSyncSuccessful r \<or> iLastSuccessfulResults d4
               = iLastSuccessfulResults (d1\<lparr>iResults := iResults d1 @ [q]\<rparr>)"
    and e4: "evolves ?p h3 h4"
    by blast
  have "addResults lt this (Caller r) h = Some h4"
    using d s1 s2 s3 s4 by (simp add: addResults_def)
  moreover have "evolves ?p h h4"
    using e1 e3 e4 by (blast intro: evolves_trans)
  ultimately show ?thesis
    using r4 n4 n1 l4 l1 by (intro exI [of _ h4] exI [of _ d4]) auto
qed

text \<open>
  The argument by reference. A call whose argument refers to a stored object behaves as
  the call with the value of that object, unless the object is the one the call deletes:
  the oldest entry of a full list, or the cache when it is replaced by the argument (which
  takes a comparison that puts a result below itself).
\<close>

lemma readRef_kept:
  assumes "readRef h a = Some r" "a \<noteq> Stored p"
    "\<And>q. q \<noteq> p \<Longrightarrow> deref (results h') q = deref (results h) q"
  shows "readRef h' a = Some r"
  using assms by (cases a) auto

lemma readRef_deleted:
  assumes "deref (results h) p \<noteq> None" "deleteSyncResults p h = Some h'"
  shows "readRef h' (Stored p) = None"
  using assms by (cases p) (auto simp: deleteSyncResults_def split: if_splits)

lemma update_by_reference:
  assumes rep: "represents h p d rs b" and rd: "readRef h a = Some r"
    and na: "a \<noteq> Stored (iLastSuccessfulResults d) \<or> \<not> lt r r"
  shows "updateLastSuccessfulResults lt p a h = updateLastSuccessfulResults lt p (Caller r) h"
proof -
  let ?l = "iLastSuccessfulResults d"
  from rep have d: "deref (privs h) p = Some d"
    and b: "derefNullable (results h) ?l = Some b"
    by (simp_all add: represents_def)
  from deleteSyncResults_nullable [OF b] obtain h1 where
    h1: "deleteSyncResults ?l h = Some h1"
    and h1o: "\<And>q. q \<noteq> ?l \<Longrightarrow> deref (results h1) q = deref (results h) q"
    by blast
  show ?thesis
  proof (cases "a = Stored ?l")
    case True
    with rd have "deref (results h) ?l = Some r" by simp
    moreover from this have "?l \<noteq> Null" by auto
    moreover from True na have "\<not> lt r r" by simp
    ultimately show ?thesis
      using d rd by (simp add: updateLastSuccessfulResults_def)
  next
    case False
    from readRef_kept [OF rd False h1o] have rd1: "readRef h1 a = Some r" by simp
    show ?thesis
    proof (cases "?l = Null")
      case True
      with h1 have "h1 = h" by (simp add: deleteSyncResults_Null)
      with True d rd show ?thesis
        by (simp add: updateLastSuccessfulResults_def deleteSyncResults_Null)
    next
      case notnull: False
      with b obtain c where c: "deref (results h) ?l = Some c"
        by (auto simp: derefNullable_def)
      with notnull d rd h1 rd1 show ?thesis
        by (simp add: updateLastSuccessfulResults_def)
    qed
  qed
qed

lemma addResults_by_reference:
  assumes rep: "represents h (d_ptr this) d rs b" and rd: "readRef h a = Some r"
    and nf: "length (iResults d) < MAXLOGENTRIES \<or> a \<noteq> Stored (hd (iResults d))"
    and na: "a \<noteq> Stored (iLastSuccessfulResults d) \<or> \<not> lt r r"
  shows "addResults lt this a h = addResults lt this (Caller r) h"
proof -
  let ?p = "d_ptr this"
  let ?rs1 = "if length rs \<ge> MAXLOGENTRIES then tl rs else rs"
  from rep have d: "deref (privs h) ?p = Some d"
    and len: "length rs = length (iResults d)"
    by (auto simp: represents_def dest: derefAll_length)
  have "\<exists>h1 d1. (if length (iResults d) \<ge> MAXLOGENTRIES
                  then do { (q, h') \<leftarrow> takeFirst ?p h; deleteSyncResults q h' }
                  else Some h) = Some h1
          \<and> represents h1 ?p d1 ?rs1 b
          \<and> iLastSuccessfulResults d1 = iLastSuccessfulResults d
          \<and> readRef h1 a = Some r"
  proof (cases "length (iResults d) \<ge> MAXLOGENTRIES")
    case True
    then have ne: "iResults d \<noteq> []" by (auto simp: MAXLOGENTRIES_def)
    from evict_sim [OF rep ne] obtain q h1 h2 where
      e: "takeFirst ?p h = Some (q, h1)" "deleteSyncResults q h1 = Some h2"
      "represents h2 ?p (d\<lparr>iResults := tl (iResults d)\<rparr>) (tl rs) b"
      by blast
    from e(1) d ne have q: "q = hd (iResults d)" "results h1 = results h"
      by (auto simp: takeFirst_def modifyPrivate_def split: list.splits Option.bind_splits)
    from True nf have "a \<noteq> Stored q" using q by simp
    moreover have "\<And>q'. q' \<noteq> q \<Longrightarrow> deref (results h2) q' = deref (results h) q'"
      using e(2) q(2)
      by (cases q)
        (auto simp: deleteSyncResults_def deref_update_other simp del: deref.simps
          split: if_splits)
    ultimately have "readRef h2 a = Some r"
      using rd by (cases a) auto
    with e True len show ?thesis
      by (intro exI [of _ h2] exI [of _ "d\<lparr>iResults := tl (iResults d)\<rparr>"]) simp
  next
    case False
    with rep len rd show ?thesis
      by (intro exI [of _ h] exI [of _ d]) simp
  qed
  then obtain h1 d1 where
    s1: "(if length (iResults d) \<ge> MAXLOGENTRIES
          then do { (q, h') \<leftarrow> takeFirst ?p h; deleteSyncResults q h' }
          else Some h) = Some h1"
    and r1: "represents h1 ?p d1 ?rs1 b"
    and l1: "iLastSuccessfulResults d1 = iLastSuccessfulResults d"
    and rd1: "readRef h1 a = Some r"
    by blast
  obtain q h2 where s2: "newSyncResults r h1 = (q, h2)"
    by (cases "newSyncResults r h1")
  from append_sim [OF r1 s2] obtain h3 where
    s3: "modifyPrivate ?p (\<lambda>d. d\<lparr>iResults := iResults d @ [q]\<rparr>) h2 = Some h3"
    and r3: "represents h3 ?p (d1\<lparr>iResults := iResults d1 @ [q]\<rparr>) (?rs1 @ [r]) b"
    by blast
  from s3 have res3: "results h3 = results h2"
    by (auto simp: modifyPrivate_def split: Option.bind_splits)
  have rd3: "readRef h3 a = Some r"
    using rd1 newSyncResults_fresh [OF s2] res3 by (cases a) auto
  have "updateLastSuccessfulResults lt ?p a h3 = updateLastSuccessfulResults lt ?p (Caller r) h3"
    by (rule update_by_reference [OF r3 rd3]) (use na l1 in simp)
  with d s1 rd1 s2 s3 show ?thesis
    by (simp add: addResults_def)
qed

text \<open>
  On a full list \<open>addResults\<close> deletes the oldest entry before it reads its argument:
  the call whose argument refers to that entry reads a deleted object.
\<close>

lemma addResults_oldest_deleted:
  assumes rep: "represents h (d_ptr this) d rs b"
    and full: "length (iResults d) \<ge> MAXLOGENTRIES"
  shows "addResults lt this (Stored (hd (iResults d))) h = None"
proof -
  from full have ne: "iResults d \<noteq> []" by (auto simp: MAXLOGENTRIES_def)
  then obtain q qs where qs: "iResults d = q # qs" by (cases "iResults d") auto
  from rep have d: "deref (privs h) (d_ptr this) = Some d"
    and rs: "derefAll (results h) (iResults d) = Some rs"
    by (simp_all add: represents_def)
  from modifyPrivate_live [OF d, of "\<lambda>d. d\<lparr>iResults := qs\<rparr>"]
  obtain h1 where h1: "modifyPrivate (d_ptr this) (\<lambda>d. d\<lparr>iResults := qs\<rparr>) h = Some h1"
    "results h1 = results h"
    by auto
  have tf: "takeFirst (d_ptr this) h = Some (q, h1)"
    using d qs h1 by (simp add: takeFirst_def)
  have live: "deref (results h1) q \<noteq> None"
    using rs qs h1 by (auto split: Option.bind_splits)
  from deleteSyncResults_live [OF live] obtain h2 where
    h2: "deleteSyncResults q h1 = Some h2"
    by blast
  from readRef_deleted [OF live h2] have "readRef h2 (Stored q) = None" .
  with d full tf h2 qs show ?thesis
    by (simp add: addResults_def)
qed

text \<open>
  \<open>updateLastSuccessfulResults\<close> deletes the cache (line 101) before it copies its
  argument into the new cache (line 102). An argument that refers to the cache replaces
  it only under a comparison that puts a result below itself; the order of the sample
  data does not, the comparison that holds of every pair does.
\<close>

lemma update_cache_deleted:
  "addResults (\<lambda>x y. True) sampleLog (Stored (Ptr 1)) sampleHeap = None
   \<and> (addResults sampleOrder sampleLog (Stored (Ptr 1)) sampleHeap
        \<bind> (\<lambda>h'. map_option vRetained (observe sampleLog h')))
       = Some [okAt 3, okAt 3]"
  by code_simp

section \<open>From the heap to what is observed\<close>

lemma valid_represents:
  "valid h this \<longleftrightarrow> (\<exists>d rs b. represents h (d_ptr this) d rs b)"
proof
  assume "valid h this"
  then obtain d where d: "deref (privs h) (d_ptr this) = Some d" "distinct (owned d)"
    "list_all (\<lambda>p. \<not> (deref (results h) p = None)) (owned d)"
    by (auto simp: valid_def split: option.splits)
  then have "list_all (\<lambda>p. \<not> (deref (results h) p = None)) (iResults d)"
    by (simp add: owned_def)
  from derefAll_live [OF this] obtain rs where "derefAll (results h) (iResults d) = Some rs" ..
  moreover have "\<exists>b. derefNullable (results h) (iLastSuccessfulResults d) = Some b"
    using d(3) by (auto simp: owned_def derefNullable_def)
  ultimately show "\<exists>d rs b. represents h (d_ptr this) d rs b"
    using d by (auto simp: represents_def)
next
  assume "\<exists>d rs b. represents h (d_ptr this) d rs b"
  then obtain d rs b where r: "represents h (d_ptr this) d rs b" by blast
  then have "list_all (\<lambda>p. \<not> (deref (results h) p = None)) (owned d)"
    by (auto simp: represents_def owned_def list_all_iff derefNullable_def
        dest: derefAll_Some_live split: if_splits)
  with r show "valid h this"
    by (simp add: valid_def represents_def)
qed

lemma observe_represents:
  "represents h (d_ptr this) d rs b \<Longrightarrow>
     observe this h = Some \<lparr>vName = iProfileName d, vRetained = rs, vBest = b\<rparr>"
  by (simp add: represents_def observe_def profileName_def allResults_def
      lastSuccessfulResults_def)

lemma represents_observe:
  assumes "valid h this" "observe this h = Some v"
  shows "\<exists>d. represents h (d_ptr this) d (vRetained v) (vBest v) \<and> iProfileName d = vName v"
proof -
  from assms(1) obtain d rs b where r: "represents h (d_ptr this) d rs b"
    by (auto simp: valid_represents)
  from observe_represents [OF r] assms(2) r show ?thesis by auto
qed

lemma addResults_view:
  assumes "valid h this" "observe this h = Some v"
  shows "\<exists>h'. addResults lt this (Caller r) h = Some h' \<and> valid h' this
           \<and> observe this h' = Some (recordResult lt r v)
           \<and> evolves (d_ptr this) h h'"
proof -
  from represents_observe [OF assms] obtain d where
    r: "represents h (d_ptr this) d (vRetained v) (vBest v)" and n: "iProfileName d = vName v"
    by blast
  from addResults_rep [OF r, of lt r] obtain h' d' where
    a: "addResults lt this (Caller r) h = Some h'"
    and r': "represents h' (d_ptr this) d'
       ((if length (vRetained v) \<ge> MAXLOGENTRIES then tl (vRetained v) else vRetained v) @ [r])
       (if isSyncSuccessful r \<and> (case vBest v of None \<Rightarrow> True | Some c \<Rightarrow> lt c r)
        then Some r else vBest v)"
    and n': "iProfileName d' = iProfileName d" and e: "evolves (d_ptr this) h h'"
    by blast
  from r' have "valid h' this" by (auto simp: valid_represents)
  moreover from observe_represents [OF r'] n n'
  have "observe this h' = Some (recordResult lt r v)"
    by (simp add: recordResult_def)
  ultimately show ?thesis using a e by blast
qed


lemma addResults_view_by_reference:
  assumes "valid h this" "observe this h = Some v" "readRef h a = Some r"
    and "deref (privs h) (d_ptr this) = Some d"
    and "length (iResults d) < MAXLOGENTRIES \<or> a \<noteq> Stored (hd (iResults d))"
    and "a \<noteq> Stored (iLastSuccessfulResults d) \<or> \<not> lt r r"
  shows "\<exists>h'. addResults lt this a h = Some h' \<and> valid h' this
           \<and> observe this h' = Some (recordResult lt r v)"
proof -
  from represents_observe [OF assms(1,2)] obtain d' where
    r: "represents h (d_ptr this) d' (vRetained v) (vBest v)"
    by blast
  with assms(4) have "d' = d" by (simp add: represents_def)
  with r have "addResults lt this a h = addResults lt this (Caller r) h"
    using assms(3,5,6) by (intro addResults_by_reference) simp_all
  with addResults_view [OF assms(1,2), of lt r] show ?thesis by auto
qed

lemma recordOldestAgain_full:
  assumes "valid h this" "observe this h = Some v" "length (vRetained v) \<ge> MAXLOGENTRIES"
  shows "recordOldestAgain lt this h = None"
proof -
  from represents_observe [OF assms(1,2)] obtain d where
    r: "represents h (d_ptr this) d (vRetained v) (vBest v)"
    by blast
  then have d: "deref (privs h) (d_ptr this) = Some d"
    and len: "length (iResults d) = length (vRetained v)"
    by (auto simp: represents_def dest: derefAll_length)
  with assms(3) have full: "length (iResults d) \<ge> MAXLOGENTRIES" by simp
  then obtain q qs where qs: "iResults d = q # qs"
    by (cases "iResults d") (auto simp: MAXLOGENTRIES_def)
  from addResults_oldest_deleted [OF r full, of lt] qs d
  show ?thesis
    by (simp add: recordOldestAgain_def allResults_def)
qed

lemma fromName_eq:
  "SyncLog_fromName n h =
     Some (\<lparr>d_ptr = Ptr (length (privs h))\<rparr>,
           h\<lparr>privs := privs h @
              [Some \<lparr>iProfileName = n, iResults = [], iLastSuccessfulResults = Null\<rparr>]\<rparr>)"
  by (simp add: SyncLog_fromName_def newSyncLogPrivate_def alloc_def modifyPrivate_def
      SyncLogPrivate_default_def)

lemma fromName_rep:
  "\<exists>this h' d. SyncLog_fromName n h = Some (this, h')
      \<and> represents h' (d_ptr this) d [] None \<and> iProfileName d = n
      \<and> deref (privs h) (d_ptr this) = None
      \<and> results h' = results h
      \<and> (\<forall>q. deref (privs h) q \<noteq> None \<longrightarrow> deref (privs h') q = deref (privs h) q)"
proof -
  let ?d = "\<lparr>iProfileName = n, iResults = [], iLastSuccessfulResults = Null\<rparr>"
  let ?log = "\<lparr>d_ptr = Ptr (length (privs h))\<rparr>"
  let ?h = "h\<lparr>privs := privs h @ [Some ?d]\<rparr>"
  have "represents ?h (d_ptr ?log) ?d [] None"
    by (simp add: represents_def owned_def derefNullable_def)
  moreover have "deref (privs h) (d_ptr ?log) = None" by simp
  moreover have "\<forall>q. deref (privs h) q \<noteq> None \<longrightarrow> deref (privs ?h) q = deref (privs h) q"
    by (simp add: deref_append_live del: deref.simps)
  ultimately show ?thesis
    using fromName_eq [of n h]
    by (intro exI [of _ ?log] exI [of _ ?h] exI [of _ ?d]) simp
qed

lemma fromName_view:
  "\<exists>this h'. SyncLog_fromName n h = Some (this, h') \<and> valid h' this
      \<and> observe this h' = Some (emptyView n)"
proof -
  from fromName_rep [of n h] obtain this h' d where
    c: "SyncLog_fromName n h = Some (this, h')" and r: "represents h' (d_ptr this) d [] None"
    and n: "iProfileName d = n"
    by blast
  from r have "valid h' this" by (auto simp: valid_represents)
  moreover from observe_represents [OF r] n have "observe this h' = Some (emptyView n)"
    by (simp add: emptyView_def)
  ultimately show ?thesis using c by blast
qed

lemma addResultsSeq_view:
  assumes "valid h this" "observe this h = Some v"
  shows "\<exists>h'. addResultsSeq lt this (map Caller rs) h = Some h' \<and> valid h' this
           \<and> observe this h' = Some (recordAll lt rs v)
           \<and> evolves (d_ptr this) h h'"
  using assms
proof (induction rs arbitrary: h v)
  case Nil
  then show ?case by (simp add: recordAll_def evolves_refl)
next
  case (Cons r rs)
  from addResults_view [OF Cons.prems, of lt r] obtain h1 where
    1: "addResults lt this (Caller r) h = Some h1" "valid h1 this"
    "observe this h1 = Some (recordResult lt r v)" "evolves (d_ptr this) h h1"
    by blast
  from Cons.IH [OF 1(2) 1(3)] obtain h' where
    "addResultsSeq lt this (map Caller rs) h1 = Some h'" "valid h' this"
    "observe this h' = Some (recordAll lt rs (recordResult lt r v))"
    "evolves (d_ptr this) h1 h'"
    by blast
  with 1 show ?case
    by (auto simp: recordAll_def intro: evolves_trans)
qed

section \<open>Sequences of results\<close>

lemma recordAll_snoc: "recordAll lt (rs @ [r]) v = recordResult lt r (recordAll lt rs v)"
  by (simp add: recordAll_def)

lemma recordAll_name: "vName (recordAll lt rs v) = vName v"
  by (induction rs rule: rev_induct) (simp_all add: recordAll_snoc recordResult_def, simp add: recordAll_def)

lemma recordAll_retained:
  "vRetained v = [] \<Longrightarrow> vRetained (recordAll lt rs v) = drop (length rs - 5) rs"
proof (induction rs rule: rev_induct)
  case Nil
  then show ?case by (simp add: recordAll_def)
next
  case (snoc r rs)
  then have IH: "vRetained (recordAll lt rs v) = drop (length rs - 5) rs" by simp
  show ?case
  proof (cases "5 \<le> length rs")
    case True
    have "tl (drop (length rs - 5) rs) = drop (Suc (length rs - 5)) rs"
      by (simp only: drop_Suc tl_drop)
    moreover have "Suc (length rs - 5) = Suc (length rs) - 5"
      using True by simp
    ultimately have "tl (drop (length rs - 5) rs) = drop (Suc (length rs) - 5) rs"
      by simp
    with True IH show ?thesis
      by (simp add: recordAll_snoc recordResult_def MAXLOGENTRIES_def)
  next
    case False
    with IH show ?thesis
      by (simp add: recordAll_snoc recordResult_def MAXLOGENTRIES_def)
  qed
qed

text \<open>
  When every call passes a result of the caller's own, a log constructed empty that has
  recorded the results \<open>rs\<close>, one call of \<open>addResults\<close> each, retains exactly the
  last five of them (all of them when there are at most five), oldest first; so the
  retained list has \<open>min (length rs) 5\<close> entries. The statement holds for every
  sequence, hence after each call of a longer one.
\<close>

lemma callers_results_retained:
  "\<exists>this h0 h' v. SyncLog_fromName n h = Some (this, h0)
      \<and> addResultsSeq lt this (map Caller rs) h0 = Some h'
      \<and> observe this h' = Some v
      \<and> vRetained v = drop (length rs - 5) rs
      \<and> length (vRetained v) = min (length rs) 5"
proof -
  from fromName_view [of n h] obtain this h0 where
    0: "SyncLog_fromName n h = Some (this, h0)" "valid h0 this"
    "observe this h0 = Some (emptyView n)"
    by blast
  from addResultsSeq_view [OF 0(2) 0(3), of lt rs] obtain h' where
    1: "addResultsSeq lt this (map Caller rs) h0 = Some h'"
    "observe this h' = Some (recordAll lt rs (emptyView n))"
    by blast
  have "vRetained (recordAll lt rs (emptyView n)) = drop (length rs - 5) rs"
    by (rule recordAll_retained) (simp add: emptyView_def)
  moreover have "length (drop (length rs - 5) rs) = min (length rs) 5"
    by simp
  ultimately show ?thesis using 0 1 by metis
qed

text \<open>
  C1: after every call of a sequence of \<open>addResults\<close> calls on a log constructed empty
  the retained list is to hold the last five results recorded, \<open>min N 5\<close> of them. The
  sequence below records five results of the caller's and then, as its sixth call, the
  oldest retained result through the pointer \<open>allResults\<close> hands out. After five calls
  the list is full, so the sixth call deletes the oldest entry (line 195) and then reads
  its argument, the deleted entry, to copy it (line 198): the sixth call has no
  defined result, where the retained list should be \<open>okAt 2\<close>, \<open>okAt 3\<close>,
  \<open>okAt 4\<close>, \<open>okAt 5\<close>, \<open>okAt 1\<close>.
\<close>

theorem sixth_call_reads_deleted_entry:
  "(SyncLog_fromName ''p'' emptyHeap \<bind>
      (\<lambda>(this, h). addResultsSeq sampleOrder this
         (map Caller [okAt 1, okAt 2, okAt 3, okAt 4, okAt 5]) h \<bind> observe this))
     = Some \<lparr>vName = ''p'', vRetained = [okAt 1, okAt 2, okAt 3, okAt 4, okAt 5],
             vBest = Some (okAt 5)\<rparr>
   \<and> (SyncLog_fromName ''p'' emptyHeap \<bind>
      (\<lambda>(this, h). addResultsSeq sampleOrder this
         (map Caller [okAt 1, okAt 2, okAt 3, okAt 4, okAt 5]) h
           \<bind> recordOldestAgain sampleOrder this))
     = None"
  by code_simp

section \<open>The best successful result\<close>

lemma sampleOrder_total: "strictTotalOrder sampleOrder"
  unfolding strictTotalOrder_def
proof (intro conjI allI impI)
  fix x show "\<not> sampleOrder x x" by (simp add: sampleOrder_def)
next
  fix x y z assume "sampleOrder x y" "sampleOrder y z"
  then show "sampleOrder x z" by (auto simp: sampleOrder_def)
next
  fix x y :: SyncResults assume "x \<noteq> y"
  then have "timeRank x \<noteq> timeRank y \<or> majorCode x \<noteq> majorCode y \<or> minorCode x \<noteq> minorCode y"
    by (cases x, cases y) (auto simp: timeRank_def split: option.splits)
  then show "sampleOrder x y \<or> sampleOrder y x"
    by (auto simp: sampleOrder_def)
qed

lemma recordAll_best:
  assumes "strictTotalOrder lt" "vBest v = None"
  shows "isMaximumOf lt (filter isSyncSuccessful rs) (vBest (recordAll lt rs v))"
proof (induction rs rule: rev_induct)
  case Nil
  then show ?case using assms by (simp add: recordAll_def isMaximumOf_def)
next
  case (snoc r rs)
  let ?b = "vBest (recordAll lt rs v)"
  let ?xs = "filter isSyncSuccessful rs"
  from assms(1) have irr: "\<And>x. \<not> lt x x" and tr: "\<And>x y z. lt x y \<Longrightarrow> lt y z \<Longrightarrow> lt x z"
    and tot: "\<And>x y. x \<noteq> y \<Longrightarrow> lt x y \<or> lt y x"
    by (auto simp: strictTotalOrder_def)
  show ?case
  proof (cases "isSyncSuccessful r")
    case False
    with snoc show ?thesis by (simp add: recordAll_snoc recordResult_def)
  next
    case True
    show ?thesis
    proof (cases ?b)
      case None
      with snoc have "?xs = []" by (simp add: isMaximumOf_def)
      with True None show ?thesis
        by (simp add: recordAll_snoc recordResult_def isMaximumOf_def)
    next
      case (Some b)
      with snoc have b: "b \<in> set ?xs" "\<forall>x \<in> set ?xs. x = b \<or> lt x b"
        by (simp_all add: isMaximumOf_def list_all_iff)
      show ?thesis
      proof (cases "lt b r")
        case lt: True
        have "\<forall>x \<in> set ?xs. x = r \<or> lt x r"
          using b(2) lt tr by (metis (full_types))
        with True Some lt show ?thesis
          by (simp add: recordAll_snoc recordResult_def isMaximumOf_def
              list_all_iff)
      next
        case nlt: False
        then have "r = b \<or> lt r b" using tot [of r b] by blast
        with True Some nlt b show ?thesis
          by (simp add: recordAll_snoc recordResult_def isMaximumOf_def
              list_all_iff)
      qed
    qed
  qed
qed

lemma maximum_unique:
  assumes "strictTotalOrder lt" "isMaximumOf lt xs m" "isMaximumOf lt xs m'"
  shows "m = m'"
proof (cases m)
  case None
  with assms(2,3) show ?thesis
    by (cases m') (auto simp: isMaximumOf_def)
next
  case (Some b)
  with assms(2) have b: "b \<in> set xs" "\<forall>x \<in> set xs. x = b \<or> lt x b"
    by (auto simp: isMaximumOf_def list_all_iff)
  with assms(3) obtain b' where m': "m' = Some b'" "b' \<in> set xs" "\<forall>x \<in> set xs. x = b' \<or> lt x b'"
    by (cases m') (auto simp: isMaximumOf_def list_all_iff)
  from assms(1) have irr: "\<And>x. \<not> lt x x" and tr: "\<And>x y z. lt x y \<Longrightarrow> lt y z \<Longrightarrow> lt x z"
    by (auto simp: strictTotalOrder_def)
  have "b = b'"
  proof (rule ccontr)
    assume "b \<noteq> b'"
    with b m' have "lt b b'" "lt b' b" by auto
    from tr [OF this] irr show False by simp
  qed
  with Some m' show ?thesis by simp
qed

text \<open>
  When every call passes a result of the caller's own and the comparison of results is a
  strict total order, a log constructed empty that has recorded the results \<open>rs\<close> holds
  as its best successful result the greatest of the successful results of \<open>rs\<close>, and
  none when no result of \<open>rs\<close> is successful, whatever has left the retained list
  since.
\<close>

lemma callers_results_best:
  assumes "strictTotalOrder lt"
  shows "\<exists>this h0 h' v. SyncLog_fromName n h = Some (this, h0)
      \<and> addResultsSeq lt this (map Caller rs) h0 = Some h'
      \<and> observe this h' = Some v
      \<and> isMaximumOf lt (filter isSyncSuccessful rs) (vBest v)"
proof -
  from fromName_view [of n h] obtain this h0 where
    0: "SyncLog_fromName n h = Some (this, h0)" "valid h0 this"
    "observe this h0 = Some (emptyView n)"
    by blast
  from addResultsSeq_view [OF 0(2) 0(3), of lt rs] obtain h' where
    1: "addResultsSeq lt this (map Caller rs) h0 = Some h'"
    "observe this h' = Some (recordAll lt rs (emptyView n))"
    by blast
  have "isMaximumOf lt (filter isSyncSuccessful rs) (vBest (recordAll lt rs (emptyView n)))"
    by (rule recordAll_best [OF assms]) (simp add: emptyView_def)
  with 0 1 show ?thesis by blast
qed

lemma callers_results_best_example:
  "strictTotalOrder sampleOrder \<and>
   (\<exists>this h0 h' v. SyncLog_fromName ''p'' emptyHeap = Some (this, h0)
      \<and> addResultsSeq sampleOrder this (map Caller [okAt 3, failedAt 9, okAt 7, okAt 5]) h0 = Some h'
      \<and> observe this h' = Some v
      \<and> vBest v = Some (okAt 7))"
proof -
  let ?rs = "[okAt 3, failedAt 9, okAt 7, okAt 5]"
  from callers_results_best [OF sampleOrder_total, of "''p''" emptyHeap ?rs]
  obtain this h0 h' v where
    run: "SyncLog_fromName ''p'' emptyHeap = Some (this, h0)"
    "addResultsSeq sampleOrder this (map Caller ?rs) h0 = Some h'" "observe this h' = Some v"
    and m: "isMaximumOf sampleOrder (filter isSyncSuccessful ?rs) (vBest v)"
    by blast
  have "isMaximumOf sampleOrder (filter isSyncSuccessful ?rs) (Some (okAt 7))"
    by code_simp
  from maximum_unique [OF sampleOrder_total m this] run show ?thesis
    using sampleOrder_total by blast
qed

text \<open>
  The first scenario of the spec: six successful results with increasing times leave the
  last five in the list, and the last one as the best successful result.
\<close>

lemma six_successes:
  "SyncLog_fromName ''p'' emptyHeap \<bind>
     (\<lambda>(this, h). addResultsSeq sampleOrder this
        (map Caller [okAt 1, okAt 2, okAt 3, okAt 4, okAt 5, okAt 6]) h \<bind> observe this)
   = Some \<lparr>vName = ''p'', vRetained = [okAt 2, okAt 3, okAt 4, okAt 5, okAt 6],
           vBest = Some (okAt 6)\<rparr>"
  by code_simp

text \<open>
  C2: after a sequence of \<open>addResults\<close> calls on a log constructed empty the best
  successful result is to be the greatest successful result of the sequence. The
  sequence below records \<open>okAt 1\<close>, \<open>failedAt 2\<close>, \<open>okAt 3\<close>, \<open>failedAt 4\<close>,
  \<open>failedAt 5\<close> and then the oldest retained result, \<open>okAt 1\<close>, through the pointer
  \<open>allResults\<close> hands out. After five calls the best successful result is \<open>okAt 3\<close>,
  and it should be \<open>okAt 3\<close> after the sixth; the sixth call deletes the entry it was
  given (line 195) and reads it afterwards (lines 198 and 203, and in
  \<open>updateLastSuccessfulResults\<close> lines 99 and 102): it has no defined result, and no
  best successful result is defined after it.
\<close>

theorem best_undefined_after_deleted_entry:
  "(SyncLog_fromName ''p'' emptyHeap \<bind>
      (\<lambda>(this, h). addResultsSeq sampleOrder this
         (map Caller [okAt 1, failedAt 2, okAt 3, failedAt 4, failedAt 5]) h
           \<bind> (\<lambda>h'. map_option vBest (observe this h'))))
     = Some (Some (okAt 3))
   \<and> isMaximumOf sampleOrder
       (filter isSyncSuccessful [okAt 1, failedAt 2, okAt 3, failedAt 4, failedAt 5, okAt 1])
       (Some (okAt 3))
   \<and> (SyncLog_fromName ''p'' emptyHeap \<bind>
      (\<lambda>(this, h). addResultsSeq sampleOrder this
         (map Caller [okAt 1, failedAt 2, okAt 3, failedAt 4, failedAt 5]) h
           \<bind> recordOldestAgain sampleOrder this
           \<bind> (\<lambda>h'. map_option vBest (observe this h'))))
     = None"
  by code_simp

section \<open>The accessors and the success predicate\<close>

text \<open>
  The sample log is in a valid state, it is the state the code reaches by constructing a
  log and recording \<open>okAt 3\<close>, and one result is observed in it.
\<close>

lemma sample_valid: "valid sampleHeap sampleLog"
  by (simp add: valid_def sampleHeap_def sampleLog_def owned_def)

lemma sample_observe:
  "observe sampleLog sampleHeap =
     Some \<lparr>vName = ''p'', vRetained = [okAt 3], vBest = Some (okAt 3)\<rparr>"
  by (simp add: observe_def sampleHeap_def sampleLog_def profileName_def allResults_def
      lastSuccessfulResults_def derefNullable_def)

lemma sample_reached:
  "SyncLog_fromName ''p'' emptyHeap \<bind>
     (\<lambda>(this, h). addResults sampleOrder this (Caller (okAt 3)) h \<bind> (\<lambda>h'. Some (this, h')))
   = Some (sampleLog, sampleHeap)"
  by code_simp

lemma valid_observe: "valid h this \<Longrightarrow> \<exists>v. observe this h = Some v"
  by (auto simp: valid_represents dest: observe_represents)

lemma derefAll_last:
  "derefAll s ps = Some rs \<Longrightarrow> ps \<noteq> [] \<Longrightarrow> deref s (last ps) = Some (last rs)"
  by (cases ps rule: rev_cases) (auto simp: derefAll_snoc split: Option.bind_splits)

lemma derefAll_Nil_iff: "derefAll s ps = Some rs \<Longrightarrow> rs = [] \<longleftrightarrow> ps = []"
  by (auto dest: derefAll_length)

lemma accessors_rep:
  assumes "represents h (d_ptr this) d rs b"
  shows "profileName this h = Some (iProfileName d, h)"
    and "allResults this h = Some (iResults d, h)"
    and "lastSuccessfulResults this h = Some (iLastSuccessfulResults d, h)"
    and "lastResults this h = Some (if iResults d = [] then Null else last (iResults d), h)"
  using assms
  by (simp_all add: represents_def profileName_def allResults_def lastSuccessfulResults_def
      lastResults_def)

text \<open>
  A result is successful exactly when its major code is SUCCESS, its minor code is
  NO_ERROR and its sync time is not null; recording a result of the caller's own that is
  not successful succeeds and leaves the best successful result of the log as it was:
  the same value behind the same pointer.
\<close>

lemma callers_failure_keeps_best:
  assumes "valid h this" "observe this h = Some v"
  shows "(isSyncSuccessful r \<longleftrightarrow>
            majorCode r = SYNC_RESULT_SUCCESS \<and> minorCode r = NO_ERROR \<and> syncTime r \<noteq> None)
         \<and> (\<not> isSyncSuccessful r \<longrightarrow>
              (\<exists>h' v' q. addResults lt this (Caller r) h = Some h' \<and> observe this h' = Some v'
                 \<and> vBest v' = vBest v
                 \<and> lastSuccessfulResults this h = Some (q, h)
                 \<and> lastSuccessfulResults this h' = Some (q, h')))"
proof -
  from represents_observe [OF assms] obtain d where
    r: "represents h (d_ptr this) d (vRetained v) (vBest v)"
    by blast
  from addResults_rep [OF r, of lt r] obtain h' d' rs' where
    a: "addResults lt this (Caller r) h = Some h'"
    and r': "represents h' (d_ptr this) d' rs'
               (if isSyncSuccessful r \<and> (case vBest v of None \<Rightarrow> True | Some c \<Rightarrow> lt c r)
                then Some r else vBest v)"
    and l: "isSyncSuccessful r \<or> iLastSuccessfulResults d' = iLastSuccessfulResults d"
    by blast
  show ?thesis
    using a l observe_represents [OF r'] accessors_rep(3) [OF r] accessors_rep(3) [OF r']
    by (auto simp: isSyncSuccessful_def)
qed

lemma callers_failure_keeps_best_example:
  "valid sampleHeap sampleLog
   \<and> observe sampleLog sampleHeap
       = Some \<lparr>vName = ''p'', vRetained = [okAt 3], vBest = Some (okAt 3)\<rparr>
   \<and> \<not> isSyncSuccessful (failedAt 9)
   \<and> (\<exists>h' v'. addResults sampleOrder sampleLog (Caller (failedAt 9)) sampleHeap = Some h'
         \<and> observe sampleLog h' = Some v' \<and> vBest v' = Some (okAt 3)
         \<and> lastSuccessfulResults sampleLog h' = Some (Ptr 1, h'))"
proof -
  have n: "\<not> isSyncSuccessful (failedAt 9)"
    by (simp add: isSyncSuccessful_def failedAt_def NO_ERROR_def)
  have q: "lastSuccessfulResults sampleLog sampleHeap = Some (Ptr 1, sampleHeap)"
    by (simp add: lastSuccessfulResults_def sampleLog_def sampleHeap_def)
  from callers_failure_keeps_best [OF sample_valid sample_observe, of "failedAt 9" sampleOrder]
    n q
  show ?thesis
    using sample_valid sample_observe by auto
qed

text \<open>
  C5: a result is successful exactly when its major code is SUCCESS, its minor code is
  NO_ERROR and its sync time is not null, and recording a result that is not successful
  is to leave the best successful result as it was. The predicate is as claimed. The log
  below has recorded \<open>failedAt 1\<close>, \<open>okAt 2\<close>, \<open>okAt 3\<close>, \<open>okAt 4\<close>,
  \<open>okAt 5\<close>; its best successful result is \<open>okAt 5\<close>. Recording its oldest retained
  result, which is not successful, through the pointer \<open>allResults\<close> hands out should
  leave \<open>okAt 5\<close> in place; the call deletes the entry (line 195) and then reads it
  (line 198, and line 99 for the success predicate), so neither the call nor the best
  successful result after it is defined.
\<close>

theorem failure_read_after_delete:
  "(isSyncSuccessful r \<longleftrightarrow>
      majorCode r = SYNC_RESULT_SUCCESS \<and> minorCode r = NO_ERROR \<and> syncTime r \<noteq> None)
   \<and> \<not> isSyncSuccessful (failedAt 1)
   \<and> (SyncLog_fromName ''p'' emptyHeap \<bind>
      (\<lambda>(this, h). addResultsSeq sampleOrder this
         (map Caller [failedAt 1, okAt 2, okAt 3, okAt 4, okAt 5]) h \<bind> observe this))
     = Some \<lparr>vName = ''p'', vRetained = [failedAt 1, okAt 2, okAt 3, okAt 4, okAt 5],
             vBest = Some (okAt 5)\<rparr>
   \<and> (SyncLog_fromName ''p'' emptyHeap \<bind>
      (\<lambda>(this, h). addResultsSeq sampleOrder this
         (map Caller [failedAt 1, okAt 2, okAt 3, okAt 4, okAt 5]) h
           \<bind> recordOldestAgain sampleOrder this
           \<bind> (\<lambda>h'. map_option vBest (observe this h'))))
     = None"
proof -
  have "isSyncSuccessful r \<longleftrightarrow>
      majorCode r = SYNC_RESULT_SUCCESS \<and> minorCode r = NO_ERROR \<and> syncTime r \<noteq> None"
    by (simp add: isSyncSuccessful_def)
  moreover have "\<not> isSyncSuccessful (failedAt 1)"
    by code_simp
  moreover have "(SyncLog_fromName ''p'' emptyHeap \<bind>
      (\<lambda>(this, h). addResultsSeq sampleOrder this
         (map Caller [failedAt 1, okAt 2, okAt 3, okAt 4, okAt 5]) h \<bind> observe this))
     = Some \<lparr>vName = ''p'', vRetained = [failedAt 1, okAt 2, okAt 3, okAt 4, okAt 5],
             vBest = Some (okAt 5)\<rparr>"
    by code_simp
  moreover have "(SyncLog_fromName ''p'' emptyHeap \<bind>
      (\<lambda>(this, h). addResultsSeq sampleOrder this
         (map Caller [failedAt 1, okAt 2, okAt 3, okAt 4, okAt 5]) h
           \<bind> recordOldestAgain sampleOrder this
           \<bind> (\<lambda>h'. map_option vBest (observe this h'))))
     = None"
    by code_simp
  ultimately show ?thesis by blast
qed

text \<open>
  The heap after a log was constructed empty is the one the constructor gives; the log
  in it is in a valid state, retains nothing and has no best successful result.
\<close>

lemma fresh_reached:
  "SyncLog_fromName ''p'' emptyHeap = Some (sampleLog, freshHeap)"
  by code_simp

lemma fresh_valid: "valid freshHeap sampleLog"
  by (simp add: valid_def freshHeap_def sampleLog_def owned_def)

lemma fresh_observe:
  "observe sampleLog freshHeap = Some \<lparr>vName = ''p'', vRetained = [], vBest = None\<rparr>"
  by (simp add: observe_def freshHeap_def sampleLog_def derefNullable_def)

text \<open>
  C8: on a log in a valid state the accessors return without failing and leave the heap
  as it is. With \<open>d\<close> the private part of the log, \<open>allResults\<close> returns the list of
  \<open>d\<close>, behind which the retained results stand, and \<open>lastResults\<close> returns the null
  pointer when nothing is retained and the last pointer of the list otherwise, behind
  which the last retained result stands; \<open>lastSuccessfulResults\<close> returns the cache
  pointer of \<open>d\<close>, which is null exactly when there is no best successful result and
  points to it otherwise. What is retained and what the best successful result is are
  read from the private part, not through the accessors.
\<close>

theorem accessors_return_none_or_value:
  assumes "valid h this" "observe this h = Some v"
  shows "\<exists>d p. deref (privs h) (d_ptr this) = Some d
           \<and> allResults this h = Some (iResults d, h)
           \<and> lastResults this h = Some (p, h)
           \<and> lastSuccessfulResults this h = Some (iLastSuccessfulResults d, h)
           \<and> derefAll (results h) (iResults d) = Some (vRetained v)
           \<and> (if vRetained v = [] then p = Null
               else p = last (iResults d) \<and> p \<noteq> Null
                    \<and> deref (results h) p = Some (last (vRetained v)))
           \<and> (case vBest v of
                 None \<Rightarrow> iLastSuccessfulResults d = Null
               | Some b \<Rightarrow> iLastSuccessfulResults d \<noteq> Null
                    \<and> deref (results h) (iLastSuccessfulResults d) = Some b)"
proof -
  from represents_observe [OF assms] obtain d where
    r: "represents h (d_ptr this) d (vRetained v) (vBest v)"
    by blast
  then have d: "deref (privs h) (d_ptr this) = Some d"
    and rs: "derefAll (results h) (iResults d) = Some (vRetained v)"
    and b: "derefNullable (results h) (iLastSuccessfulResults d) = Some (vBest v)"
    by (simp_all add: represents_def)
  have 1: "if vRetained v = [] then iResults d = []
           else iResults d \<noteq> [] \<and> last (iResults d) \<noteq> Null
                \<and> deref (results h) (last (iResults d)) = Some (last (vRetained v))"
    using derefAll_last [OF rs] derefAll_Nil_iff [OF rs] by auto
  have 2: "case vBest v of None \<Rightarrow> iLastSuccessfulResults d = Null
           | Some b \<Rightarrow> iLastSuccessfulResults d \<noteq> Null
                \<and> deref (results h) (iLastSuccessfulResults d) = Some b"
    using b by (cases "vBest v") (auto simp: derefNullable_def split: if_splits)
  show ?thesis
    using accessors_rep [OF r] d rs 1 2
    by (intro exI [of _ d] exI [of _ "if iResults d = [] then Null else last (iResults d)"])
      (auto split: if_splits)
qed

theorem accessors_return_none_or_value_witness:
  "valid freshHeap sampleLog
   \<and> observe sampleLog freshHeap = Some \<lparr>vName = ''p'', vRetained = [], vBest = None\<rparr>
   \<and> allResults sampleLog freshHeap = Some ([], freshHeap)
   \<and> lastResults sampleLog freshHeap = Some (Null, freshHeap)
   \<and> lastSuccessfulResults sampleLog freshHeap = Some (Null, freshHeap)
   \<and> valid sampleHeap sampleLog
   \<and> observe sampleLog sampleHeap
       = Some \<lparr>vName = ''p'', vRetained = [okAt 3], vBest = Some (okAt 3)\<rparr>
   \<and> allResults sampleLog sampleHeap = Some ([Ptr 0], sampleHeap)
   \<and> lastResults sampleLog sampleHeap = Some (Ptr 0, sampleHeap)
   \<and> lastSuccessfulResults sampleLog sampleHeap = Some (Ptr 1, sampleHeap)
   \<and> deref (results sampleHeap) (Ptr 0) = Some (okAt 3)
   \<and> deref (results sampleHeap) (Ptr 1) = Some (okAt 3)"
proof -
  from accessors_return_none_or_value [OF fresh_valid fresh_observe]
  obtain d p where
    "deref (privs freshHeap) (d_ptr sampleLog) = Some d"
    "allResults sampleLog freshHeap = Some (iResults d, freshHeap)"
    "lastResults sampleLog freshHeap = Some (p, freshHeap)"
    "lastSuccessfulResults sampleLog freshHeap = Some (iLastSuccessfulResults d, freshHeap)"
    "derefAll (results freshHeap) (iResults d) = Some []" "p = Null"
    "iLastSuccessfulResults d = Null"
    by auto
  then have fresh:
    "allResults sampleLog freshHeap = Some ([], freshHeap)"
    "lastResults sampleLog freshHeap = Some (Null, freshHeap)"
    "lastSuccessfulResults sampleLog freshHeap = Some (Null, freshHeap)"
    by (auto dest: derefAll_length)
  from accessors_return_none_or_value [OF sample_valid sample_observe]
  obtain d p where
    "deref (privs sampleHeap) (d_ptr sampleLog) = Some d"
    "allResults sampleLog sampleHeap = Some (iResults d, sampleHeap)"
    "lastResults sampleLog sampleHeap = Some (p, sampleHeap)"
    "lastSuccessfulResults sampleLog sampleHeap
       = Some (iLastSuccessfulResults d, sampleHeap)"
    "p = last (iResults d)" "deref (results sampleHeap) p = Some (okAt 3)"
    "deref (results sampleHeap) (iLastSuccessfulResults d) = Some (okAt 3)"
    by auto
  moreover from this(1)
  have "iResults d = [Ptr 0]" "iLastSuccessfulResults d = Ptr 1"
    by (auto simp: sampleLog_def sampleHeap_def)
  ultimately have sample:
    "allResults sampleLog sampleHeap = Some ([Ptr 0], sampleHeap)"
    "lastResults sampleLog sampleHeap = Some (Ptr 0, sampleHeap)"
    "lastSuccessfulResults sampleLog sampleHeap = Some (Ptr 1, sampleHeap)"
    "deref (results sampleHeap) (Ptr 0) = Some (okAt 3)"
    "deref (results sampleHeap) (Ptr 1) = Some (okAt 3)"
    by simp_all
  from fresh sample show ?thesis
    using fresh_valid fresh_observe sample_valid sample_observe by simp
qed

text \<open>
  \<open>addResults\<close> of a result of the caller's own on a log in a valid state succeeds;
  afterwards the retained list is not empty, its last entry is the result just recorded,
  and \<open>lastResults\<close> returns a pointer to it.
\<close>

lemma callers_result_is_last:
  assumes "valid h this"
  shows "\<exists>h' p v'. addResults lt this (Caller r) h = Some h' \<and> lastResults this h' = Some (p, h')
           \<and> deref (results h') p = Some r \<and> observe this h' = Some v'
           \<and> vRetained v' \<noteq> [] \<and> last (vRetained v') = r"
proof -
  from assms obtain d rs b where "represents h (d_ptr this) d rs b"
    by (auto simp: valid_represents)
  from addResults_rep [OF this, of lt r] obtain h' d' rs' b' where
    a: "addResults lt this (Caller r) h = Some h'" and r': "represents h' (d_ptr this) d' (rs' @ [r]) b'"
    by blast
  from r' have rs: "derefAll (results h') (iResults d') = Some (rs' @ [r])"
    by (simp add: represents_def)
  then have ne: "iResults d' \<noteq> []"
    by (auto dest: derefAll_length)
  from derefAll_last [OF rs ne] have "deref (results h') (last (iResults d')) = Some r"
    by simp
  moreover from accessors_rep(4) [OF r'] ne
  have "lastResults this h' = Some (last (iResults d'), h')"
    by simp
  moreover note observe_represents [OF r'] a
  ultimately show ?thesis by auto
qed

lemma callers_result_is_last_example:
  "valid sampleHeap sampleLog
   \<and> (\<exists>h' p v'. addResults sampleOrder sampleLog (Caller (failedAt 9)) sampleHeap = Some h'
         \<and> lastResults sampleLog h' = Some (p, h')
         \<and> deref (results h') p = Some (failedAt 9) \<and> observe sampleLog h' = Some v'
         \<and> vRetained v' \<noteq> [] \<and> last (vRetained v') = failedAt 9)"
  using callers_result_is_last [OF sample_valid, of sampleOrder "failedAt 9"] sample_valid
  by blast

text \<open>
  The same for an argument that refers to a stored result, when the call deletes neither
  that result (it is not the oldest entry of a full list) nor replaces it as the cache.
\<close>

lemma stored_result_is_last:
  assumes "valid h this" "readRef h a = Some r"
    and "deref (privs h) (d_ptr this) = Some d"
    and "length (iResults d) < MAXLOGENTRIES \<or> a \<noteq> Stored (hd (iResults d))"
    and "a \<noteq> Stored (iLastSuccessfulResults d) \<or> \<not> lt r r"
  shows "\<exists>h' v'. addResults lt this a h = Some h' \<and> observe this h' = Some v'
           \<and> vRetained v' \<noteq> [] \<and> last (vRetained v') = r"
proof -
  from valid_observe [OF assms(1)] obtain v where v: "observe this h = Some v" ..
  from addResults_view_by_reference [where lt = lt, OF assms(1) v assms(2-5)] show ?thesis
    by (auto simp: recordResult_def)
qed

text \<open>
  C9: after \<open>addResults\<close> on any state of a log the retained list is to be non-empty
  with the recorded result as its last entry, also when the call evicts an entry. The
  log below is in a valid state and holds five results, the oldest \<open>failedAt 2\<close> behind
  the pointer \<open>Ptr 2\<close> that \<open>allResults\<close> hands out. Recording that result should
  leave \<open>failedAt 3\<close>, \<open>failedAt 4\<close>, \<open>failedAt 5\<close>, \<open>failedAt 6\<close>,
  \<open>failedAt 2\<close> with \<open>lastResults\<close> pointing to a \<open>failedAt 2\<close>; the call evicts and
  deletes the entry (line 195) before it copies its argument (line 198), so it reads a
  deleted object and has no defined result. Recording the second entry in the same way
  is defined.
\<close>

theorem evicting_call_reads_deleted_entry:
  "valid evictedHeap sampleLog
   \<and> allResults sampleLog evictedHeap
       = Some ([Ptr 2, Ptr 3, Ptr 4, Ptr 5, Ptr 6], evictedHeap)
   \<and> readRef evictedHeap (Stored (Ptr 2)) = Some (failedAt 2)
   \<and> addResults sampleOrder sampleLog (Stored (Ptr 2)) evictedHeap = None
   \<and> (addResults sampleOrder sampleLog (Stored (Ptr 3)) evictedHeap
        \<bind> (\<lambda>h'. map_option vRetained (observe sampleLog h')))
       = Some [failedAt 3, failedAt 4, failedAt 5, failedAt 6, failedAt 3]"
  by code_simp

section \<open>Serialization\<close>

lemma appendResults_children:
  "derefAll (results h) ps = Some rs \<Longrightarrow>
     appendResults toXmlR ps root h =
       Some (QDomElement (tagName root) (attributes root) (childNodes root @ map toXmlR rs))"
proof (induction ps arbitrary: rs root)
  case Nil
  then show ?case by simp
next
  case (Cons p ps)
  from Cons.prems obtain x xs where
    x: "deref (results h) p = Some x" "derefAll (results h) ps = Some xs" "rs = x # xs"
    by (auto split: Option.bind_splits)
  from Cons.IH [OF x(2)] x show ?case
    by (simp add: appendChild_def)
qed

lemma toXml_rep:
  assumes "represents h (d_ptr this) d rs b"
  shows "toXml lt toXmlR this h =
           Some (viewXml lt toXmlR \<lparr>vName = iProfileName d, vRetained = rs, vBest = b\<rparr>, h)"
proof -
  let ?root = "setAttribute ATTR_NAME (iProfileName d) (createElement TAG_SYNC_LOG)"
  from assms have d: "deref (privs h) (d_ptr this) = Some d"
    and rs: "derefAll (results h) (iResults d) = Some rs"
    and b: "derefNullable (results h) (iLastSuccessfulResults d) = Some b"
    by (simp_all add: represents_def)
  have root: "?root = QDomElement TAG_SYNC_LOG [(ATTR_NAME, iProfileName d)] []"
    by (simp add: setAttribute_def createElement_def)
  show ?thesis
  proof (cases b)
    case None
    with b have "iLastSuccessfulResults d = Null"
      by (auto simp: derefNullable_def split: if_splits)
    with d None show ?thesis
      by (simp add: toXml_def appendResults_children [OF rs] root viewXml_def bestNode_def)
  next
    case (Some x)
    with b have l: "iLastSuccessfulResults d \<noteq> Null"
      "deref (results h) (iLastSuccessfulResults d) = Some x"
      by (auto simp: derefNullable_def split: if_splits)
    show ?thesis
    proof (cases "iResults d")
      case Nil
      with rs have "rs = []" by simp
      with d l Some Nil rs show ?thesis
        by (simp add: toXml_def root viewXml_def bestNode_def appendChild_def)
    next
      case (Cons p ps)
      with rs obtain f fs where f: "deref (results h) p = Some f" "rs = f # fs"
        by (auto split: Option.bind_splits)
      have emit: "(case iResults d of
                     [] \<Rightarrow> Some True
                   | p # ps \<Rightarrow> do {
                       b \<leftarrow> deref (results h) (iLastSuccessfulResults d);
                       f \<leftarrow> deref (results h) p;
                       Some (lt b f)
                     }) = Some (lt x f)"
        using Cons f l by simp
      show ?thesis
        using d l(1) Some f(2)
        by (simp add: toXml_def emit l(2) appendResults_children [OF rs] root viewXml_def
            bestNode_def appendChild_def)
    qed
  qed
qed

lemma toXml_view:
  assumes "valid h this" "observe this h = Some v"
  shows "toXml lt toXmlR this h = Some (viewXml lt toXmlR v, h)"
proof -
  from represents_observe [OF assms] obtain d where
    "represents h (d_ptr this) d (vRetained v) (vBest v)" "iProfileName d = vName v"
    by blast
  from toXml_rep [OF this(1), of lt toXmlR] this(2) show ?thesis by (cases v) simp
qed

text \<open>
  C3: serializing a log in a valid state gives a sync log element that carries the
  profile name; its children are the node of the best successful result, present exactly
  when there is a best successful result and either nothing is retained or it is smaller
  than the oldest retained result, followed by one node per retained result in order.
\<close>

theorem best_node_emitted_iff:
  assumes "valid h this" "observe this h = Some v"
  shows "\<exists>e. toXml lt toXmlR this h = Some (e, h)
           \<and> tagName e = TAG_SYNC_LOG \<and> attribute e ATTR_NAME = vName v
           \<and> childNodes e =
               (if vBest v \<noteq> None \<and> (vRetained v = [] \<or> lt (the (vBest v)) (hd (vRetained v)))
                then [toXmlR (the (vBest v))] else [])
               @ map toXmlR (vRetained v)"
proof -
  have "bestNode lt v =
          (if vBest v \<noteq> None \<and> (vRetained v = [] \<or> lt (the (vBest v)) (hd (vRetained v)))
           then [the (vBest v)] else [])"
    by (auto simp: bestNode_def split: option.splits list.splits)
  with toXml_view [OF assms, of lt toXmlR] show ?thesis
    by (simp add: viewXml_def attribute_def)
qed

text \<open>
  C10: serializing a log in a valid state returns the heap it was given, so the profile
  name, the retained results and the best successful result are what they were, and
  serializing again gives the same element.
\<close>

theorem toXml_read_only:
  assumes "valid h this" "observe this h = Some v"
  shows "\<exists>e h'. toXml lt toXmlR this h = Some (e, h') \<and> h' = h
           \<and> observe this h' = Some v \<and> valid h' this
           \<and> toXml lt toXmlR this h' = Some (e, h')"
  using toXml_view [OF assms, of lt toXmlR] assms by simp


text \<open>
  The second scenario of the spec: one successful result, then five that are not. The
  successful one has left the list, is still the best successful result, and gets a node
  of its own in the document.
\<close>

lemma evicted_reached:
  "SyncLog_fromName ''p'' emptyHeap \<bind>
     (\<lambda>(this, h). addResultsSeq sampleOrder this
        (map Caller [okAt 1, failedAt 2, failedAt 3, failedAt 4, failedAt 5, failedAt 6]) h
        \<bind> (\<lambda>h'. Some (this, h'))) = Some (sampleLog, evictedHeap)"
  by code_simp

lemma evicted_valid: "valid evictedHeap sampleLog"
  by (simp add: valid_def evictedHeap_def sampleLog_def owned_def)

lemma evicted_observe:
  "observe sampleLog evictedHeap =
     Some \<lparr>vName = ''p'',
           vRetained = [failedAt 2, failedAt 3, failedAt 4, failedAt 5, failedAt 6],
           vBest = Some (okAt 1)\<rparr>"
  by (simp add: observe_def evictedHeap_def sampleLog_def profileName_def allResults_def
      lastSuccessfulResults_def derefNullable_def)

theorem best_node_emitted_iff_witness:
  "valid evictedHeap sampleLog
   \<and> observe sampleLog evictedHeap =
       Some \<lparr>vName = ''p'',
             vRetained = [failedAt 2, failedAt 3, failedAt 4, failedAt 5, failedAt 6],
             vBest = Some (okAt 1)\<rparr>
   \<and> (\<exists>e. toXml sampleOrder sampleToXml sampleLog evictedHeap = Some (e, evictedHeap)
         \<and> childNodes e =
             map sampleToXml
               [okAt 1, failedAt 2, failedAt 3, failedAt 4, failedAt 5, failedAt 6])"
proof -
  have "sampleOrder (okAt 1) (failedAt 2)"
    by (simp add: sampleOrder_def timeRank_def okAt_def failedAt_def)
  with best_node_emitted_iff [OF evicted_valid evicted_observe, of sampleOrder sampleToXml]
  show ?thesis
    using evicted_valid evicted_observe by auto
qed

theorem toXml_read_only_witness:
  "valid sampleHeap sampleLog
   \<and> observe sampleLog sampleHeap
       = Some \<lparr>vName = ''p'', vRetained = [okAt 3], vBest = Some (okAt 3)\<rparr>
   \<and> (\<exists>e h'. toXml sampleOrder sampleToXml sampleLog sampleHeap = Some (e, h')
         \<and> h' = sampleHeap
         \<and> observe sampleLog h'
             = Some \<lparr>vName = ''p'', vRetained = [okAt 3], vBest = Some (okAt 3)\<rparr>
         \<and> toXml sampleOrder sampleToXml sampleLog h' = Some (e, h'))"
  using toXml_read_only [OF sample_valid sample_observe, of sampleOrder sampleToXml]
    sample_valid sample_observe
  by simp


section \<open>Construction from a document\<close>

lemma readResults_dropWhile:
  "readResults lt fromXml this (dropWhile (\<lambda>c. tagName c \<noteq> TAG_SYNC_RESULTS) cs) h =
     addResultsSeq lt this
       (map (\<lambda>c. Caller (fromXml c)) (filter (\<lambda>c. tagName c = TAG_SYNC_RESULTS) cs)) h"
proof (induction cs arbitrary: h)
  case Nil
  then show ?case by (simp add: readResults.simps [of _ _ _ "[]"])
next
  case (Cons c cs)
  show ?case
  proof (cases "tagName c = TAG_SYNC_RESULTS")
    case True
    have "readResults lt fromXml this (c # cs) h =
            addResults lt this (Caller (fromXml c)) h \<bind>
              readResults lt fromXml this (dropWhile (\<lambda>c. tagName c \<noteq> TAG_SYNC_RESULTS) cs)"
      by (simp add: readResults.simps [of _ _ _ "c # cs"] nextSiblingElement_def)
    moreover have "readResults lt fromXml this
                     (dropWhile (\<lambda>c. tagName c \<noteq> TAG_SYNC_RESULTS) cs) =
                   addResultsSeq lt this
                     (map (\<lambda>c. Caller (fromXml c))
                        (filter (\<lambda>c. tagName c = TAG_SYNC_RESULTS) cs))"
      by (rule ext) (rule Cons.IH)
    ultimately show ?thesis using True by simp
  next
    case False
    with Cons.IH show ?thesis by simp
  qed
qed

lemma fromXml_unfold:
  "SyncLog_fromXml lt fromXml aRoot h = do {
     (this, h0) \<leftarrow> SyncLog_fromName (attribute aRoot ATTR_NAME) h;
     h' \<leftarrow> addResultsSeq lt this (map Caller (map fromXml (resultsChildren aRoot))) h0;
     Some (this, h')
   }"
  by (simp add: SyncLog_fromXml_def SyncLog_fromName_def firstChildElement_def
      readResults_dropWhile resultsChildren_def newSyncLogPrivate_def alloc_def
      modifyPrivate_def comp_def split: Option.bind_splits)

lemma fromXml_view:
  "\<exists>this h'. SyncLog_fromXml lt fromXml aRoot h = Some (this, h') \<and> valid h' this
      \<and> observe this h' =
          Some (recordAll lt (map fromXml (resultsChildren aRoot))
                  (emptyView (attribute aRoot ATTR_NAME)))"
proof -
  from fromName_view [of "attribute aRoot ATTR_NAME" h] obtain this h0 where
    0: "SyncLog_fromName (attribute aRoot ATTR_NAME) h = Some (this, h0)" "valid h0 this"
    "observe this h0 = Some (emptyView (attribute aRoot ATTR_NAME))"
    by blast
  from addResultsSeq_view [OF 0(2) 0(3), of lt "map fromXml (resultsChildren aRoot)"]
  obtain h' where
    "addResultsSeq lt this (map Caller (map fromXml (resultsChildren aRoot))) h0 = Some h'"
    "valid h' this"
    "observe this h' =
       Some (recordAll lt (map fromXml (resultsChildren aRoot))
               (emptyView (attribute aRoot ATTR_NAME)))"
    by blast
  with 0 show ?thesis by (simp add: fromXml_unfold)
qed

text \<open>
  C6: constructing a log from an element is constructing an empty log with the name
  attribute of the element as profile name and then calling \<open>addResults\<close> once for each
  sync results child, in document order, with the result read from the child (an object
  no log owns): the two programs return the same log in the same heap. The construction
  always returns, and what is observed of the new log is what recording these results
  one by one gives.
\<close>

theorem fromXml_is_record_sequence:
  "SyncLog_fromXml lt fromXml aRoot h =
     SyncLog_fromName (attribute aRoot ATTR_NAME) h \<bind>
       (\<lambda>(this, h0).
          addResultsSeq lt this
            (map (\<lambda>c. Caller (fromXml c))
               (filter (\<lambda>c. tagName c = TAG_SYNC_RESULTS) (childNodes aRoot))) h0
          \<bind> (\<lambda>h'. Some (this, h')))
   \<and> (\<exists>this h'. SyncLog_fromXml lt fromXml aRoot h = Some (this, h') \<and> valid h' this)"
  using fromXml_view [of lt fromXml aRoot h] fromXml_unfold [of lt fromXml aRoot h]
  by (auto simp: resultsChildren_def comp_def)

text \<open>An element with a child that is not a sync results element, which is skipped.\<close>

lemma fromXml_sample:
  "SyncLog_fromXml sampleOrder sampleFromXml
     (QDomElement TAG_SYNC_LOG [(ATTR_NAME, ''p'')]
        [QDomElement ''other'' [] [], sampleToXml (okAt 3)])
     emptyHeap
   = Some (sampleLog, sampleHeap)"
  by code_simp

section \<open>Copies\<close>

lemma copyResults_rep:
  "derefAll (results h) ps = Some rs \<Longrightarrow>
   \<exists>qs h'. copyResults ps h = Some (qs, h') \<and> privs h' = privs h
      \<and> derefAll (results h') qs = Some rs \<and> distinct qs
      \<and> (\<forall>q \<in> set qs. deref (results h) q = None)
      \<and> (\<forall>p. deref (results h) p \<noteq> None \<longrightarrow> deref (results h') p = deref (results h) p)"
proof (induction ps arbitrary: h rs)
  case Nil
  then show ?case by simp
next
  case (Cons p ps)
  from Cons.prems obtain x xs where
    x: "deref (results h) p = Some x" "derefAll (results h) ps = Some xs" "rs = x # xs"
    by (auto split: Option.bind_splits)
  obtain q h1 where n: "newSyncResults x h = (q, h1)"
    by (cases "newSyncResults x h")
  note f = newSyncResults_fresh [OF n]
  from f x have "derefAll (results h1) ps = Some xs" by blast
  from Cons.IH [OF this] obtain qs h2 where
    c: "copyResults ps h1 = Some (qs, h2)" "privs h2 = privs h1"
    "derefAll (results h2) qs = Some xs" "distinct qs"
    and fresh: "\<And>q'. q' \<in> set qs \<Longrightarrow> deref (results h1) q' = None"
    and keep: "\<And>p'. deref (results h1) p' \<noteq> None \<Longrightarrow> deref (results h2) p' = deref (results h1) p'"
    by blast
  have run: "copyResults (p # ps) h = Some (q # qs, h2)"
    using x n c by simp
  have q: "deref (results h2) q = Some x"
    using f keep [of q] by simp
  have "q \<notin> set qs"
    using fresh [of q] f by auto
  moreover have "\<forall>q' \<in> set (q # qs). deref (results h) q' = None"
  proof
    fix q' assume "q' \<in> set (q # qs)"
    then consider "q' = q" | "q' \<in> set qs" by auto
    then show "deref (results h) q' = None"
    proof cases
      case 1
      with f show ?thesis by simp
    next
      case 2
      from fresh [OF 2] f show ?thesis
        by (cases "deref (results h) q'") auto
    qed
  qed
  moreover have "\<forall>p'. deref (results h) p' \<noteq> None \<longrightarrow> deref (results h2) p' = deref (results h) p'"
    using f keep by metis
  ultimately show ?case
    using run c q x(3) f
    by (intro exI [of _ "q # qs"] exI [of _ h2]) simp
qed


lemma derefAll_cong:
  "(\<And>p. p \<in> set ps \<Longrightarrow> deref s' p = deref s p) \<Longrightarrow> derefAll s' ps = derefAll s ps"
  by (induction ps) simp_all

lemma represents_live:
  assumes "represents h p d rs b" "q \<in> set (owned d)"
  shows "deref (results h) q \<noteq> None"
  using assms
  by (auto simp: represents_def owned_def derefNullable_def dest: derefAll_Some_live
      split: if_splits)

lemma represents_frame:
  assumes r: "represents h p d rs b"
    and pr: "deref (privs h') p = deref (privs h) p"
    and keep: "\<And>q. q \<in> set (owned d) \<Longrightarrow> deref (results h') q = deref (results h) q"
  shows "represents h' p d rs b"
proof -
  have "derefAll (results h') (iResults d) = derefAll (results h) (iResults d)"
    by (rule derefAll_cong) (simp add: keep owned_def)
  moreover have "derefNullable (results h') (iLastSuccessfulResults d)
                   = derefNullable (results h) (iLastSuccessfulResults d)"
    using keep [of "iLastSuccessfulResults d"] by (simp add: derefNullable_def owned_def)
  ultimately show ?thesis using r pr by (simp add: represents_def)
qed

lemma copy_rep:
  assumes r: "represents h (d_ptr a) d rs b"
  shows "\<exists>c h' d'. SyncLog_copy a h = Some (c, h')
           \<and> represents h' (d_ptr c) d' rs b \<and> iProfileName d' = iProfileName d
           \<and> represents h' (d_ptr a) d rs b
           \<and> d_ptr c \<noteq> d_ptr a
           \<and> (\<forall>q \<in> set (owned d'). q \<notin> set (owned d))"
proof -
  let ?l = "iLastSuccessfulResults d"
  from r have d: "deref (privs h) (d_ptr a) = Some d"
    and rs: "derefAll (results h) (iResults d) = Some rs"
    and b: "derefNullable (results h) ?l = Some b"
    by (simp_all add: represents_def)
  from copyResults_rep [OF rs] obtain qs h1 where
    c: "copyResults (iResults d) h = Some (qs, h1)" "privs h1 = privs h"
    "derefAll (results h1) qs = Some rs" "distinct qs"
    and fresh: "\<And>q. q \<in> set qs \<Longrightarrow> deref (results h) q = None"
    and keep: "\<And>p. deref (results h) p \<noteq> None \<Longrightarrow> deref (results h1) p = deref (results h) p"
    by blast
  have "\<exists>d' h2. SyncLogPrivate_copy d h = Some (d', h2) \<and> privs h2 = privs h
          \<and> iProfileName d' = iProfileName d \<and> distinct (owned d')
          \<and> derefAll (results h2) (iResults d') = Some rs
          \<and> derefNullable (results h2) (iLastSuccessfulResults d') = Some b
          \<and> (\<forall>q \<in> set (owned d'). deref (results h) q = None)
          \<and> (\<forall>p. deref (results h) p \<noteq> None \<longrightarrow> deref (results h2) p = deref (results h) p)"
  proof (cases "?l = Null")
    case True
    let ?d' = "\<lparr>iProfileName = iProfileName d, iResults = qs, iLastSuccessfulResults = Null\<rparr>"
    have "SyncLogPrivate_copy d h = Some (?d', h1)"
      using c True by (simp add: SyncLogPrivate_copy_def)
    moreover have "derefNullable (results h1) Null = Some b"
      using b True by (simp add: derefNullable_def)
    ultimately show ?thesis
      using c fresh keep
      by (intro exI [of _ ?d'] exI [of _ h1]) (simp add: owned_def)
  next
    case False
    with b obtain x where x: "deref (results h) ?l = Some x" "b = Some x"
      by (auto simp: derefNullable_def)
    then have x1: "deref (results h1) ?l = Some x" using keep [of ?l] by simp
    obtain q h2 where n: "newSyncResults x h1 = (q, h2)"
      by (cases "newSyncResults x h1")
    note f = newSyncResults_fresh [OF n]
    let ?d' = "\<lparr>iProfileName = iProfileName d, iResults = qs, iLastSuccessfulResults = q\<rparr>"
    have run: "SyncLogPrivate_copy d h = Some (?d', h2)"
      using c False x1 n by (simp add: SyncLogPrivate_copy_def)
    have qn: "q \<noteq> Null" using f by auto
    have qq: "q \<notin> set qs"
      using f c(3) by (auto dest: derefAll_Some_live)
    have qh: "deref (results h) q = None"
      using f keep [of q] by (cases "deref (results h) q") auto
    have "\<forall>p. deref (results h) p \<noteq> None \<longrightarrow> deref (results h2) p = deref (results h) p"
      using f keep by metis
    moreover have "derefAll (results h2) qs = Some rs" using f c(3) by blast
    moreover have "derefNullable (results h2) q = Some b"
      using f x qn by (simp add: derefNullable_def)
    ultimately show ?thesis
      using run c f fresh qn qq qh
      by (intro exI [of _ ?d'] exI [of _ h2]) (auto simp: owned_def)
  qed
  then obtain d' h2 where
    p: "SyncLogPrivate_copy d h = Some (d', h2)" "privs h2 = privs h"
    "iProfileName d' = iProfileName d" "distinct (owned d')"
    "derefAll (results h2) (iResults d') = Some rs"
    "derefNullable (results h2) (iLastSuccessfulResults d') = Some b"
    and fresh2: "\<And>q. q \<in> set (owned d') \<Longrightarrow> deref (results h) q = None"
    and keep2: "\<And>p. deref (results h) p \<noteq> None \<Longrightarrow> deref (results h2) p = deref (results h) p"
    by blast
  let ?c = "\<lparr>d_ptr = Ptr (length (privs h))\<rparr>"
  let ?h = "h2\<lparr>privs := privs h @ [Some d']\<rparr>"
  have run: "SyncLog_copy a h = Some (?c, ?h)"
    using d p by (simp add: SyncLog_copy_def newSyncLogPrivate_def alloc_def)
  have rc: "represents ?h (d_ptr ?c) d' rs b"
    using p by (simp add: represents_def)
  have ra: "represents ?h (d_ptr a) d rs b"
  proof (rule represents_frame [OF r])
    show "deref (privs ?h) (d_ptr a) = deref (privs h) (d_ptr a)"
      using d by (simp add: deref_append_old)
  next
    fix q assume "q \<in> set (owned d)"
    from represents_live [OF r this] show "deref (results ?h) q = deref (results h) q"
      using keep2 by simp
  qed
  have ne: "d_ptr ?c \<noteq> d_ptr a"
  proof
    assume "d_ptr ?c = d_ptr a"
    then have "deref (privs h) (d_ptr a) = None"
      by (cases "d_ptr a") auto
    with d show False by simp
  qed
  have disj: "\<forall>q \<in> set (owned d'). q \<notin> set (owned d)"
    using fresh2 represents_live [OF r] by blast
  from run rc ra ne disj p(3) show ?thesis by blast
qed


lemma owned_name: "owned (d\<lparr>iProfileName := n\<rparr>) = owned d"
  by (simp add: owned_def)

lemma setProfileName_view:
  assumes "valid h this" "observe this h = Some v"
  shows "\<exists>h'. setProfileName this n h = Some h' \<and> valid h' this
           \<and> observe this h' = Some (v\<lparr>vName := n\<rparr>)
           \<and> evolves (d_ptr this) h h'"
proof -
  let ?p = "d_ptr this"
  from represents_observe [OF assms] obtain d where
    r: "represents h ?p d (vRetained v) (vBest v)" and nm: "iProfileName d = vName v"
    by blast
  then have d: "deref (privs h) ?p = Some d" by (simp add: represents_def)
  from modifyPrivate_live [OF d, of "\<lambda>d. d\<lparr>iProfileName := n\<rparr>"] obtain h' where
    h': "modifyPrivate ?p (\<lambda>d. d\<lparr>iProfileName := n\<rparr>) h = Some h'" "results h' = results h"
    "deref (privs h') ?p = Some (d\<lparr>iProfileName := n\<rparr>)"
    and other: "\<And>q. q \<noteq> ?p \<Longrightarrow> deref (privs h') q = deref (privs h) q"
    by auto
  have r': "represents h' ?p (d\<lparr>iProfileName := n\<rparr>) (vRetained v) (vBest v)"
    using r h' by (simp add: represents_def owned_name)
  have "evolves ?p h h'"
    using h' d other by (simp add: evolves_def footprint_def owned_name)
  moreover from r' have "valid h' this" by (auto simp: valid_represents)
  moreover from observe_represents [OF r'] have "observe this h' = Some (v\<lparr>vName := n\<rparr>)"
    by (cases v) simp
  ultimately show ?thesis using h' by (auto simp: setProfileName_def)
qed

lemma mutate_view:
  assumes "valid h this" "observe this h = Some v"
  shows "\<exists>h'. mutate lt this m h = Some h' \<and> valid h' this
           \<and> observe this h' = Some (applyMutation lt v m)
           \<and> evolves (d_ptr this) h h'"
proof (cases m)
  case (AddResults r)
  with addResults_view [OF assms, of lt r] show ?thesis by simp
next
  case (SetProfileName n)
  with setProfileName_view [OF assms, of n] show ?thesis by simp
qed

lemma independent_sym: "independent h a b \<Longrightarrow> independent h b a"
  by (auto simp: independent_def list_all_iff)

lemma evolves_other:
  assumes ind: "independent h a b" and ev: "evolves (d_ptr a) h h'" and va: "valid h' a"
  shows "independent h' a b \<and> observe b h' = observe b h"
proof -
  from ind have vb: "valid h b" and ne: "d_ptr b \<noteq> d_ptr a"
    and disj: "\<And>q. q \<in> set (footprint h (d_ptr a)) \<Longrightarrow> q \<notin> set (footprint h (d_ptr b))"
    by (auto simp: independent_def list_all_iff)
  from vb obtain d rs x where r: "represents h (d_ptr b) d rs x"
    by (auto simp: valid_represents)
  then have fb: "footprint h (d_ptr b) = owned d" by (rule represents_footprint)
  have r': "represents h' (d_ptr b) d rs x"
  proof (rule represents_frame [OF r])
    from r have "deref (privs h) (d_ptr b) \<noteq> None" by (simp add: represents_def)
    with ev ne show "deref (privs h') (d_ptr b) = deref (privs h) (d_ptr b)"
      by (simp add: evolves_def)
  next
    fix q assume q: "q \<in> set (owned d)"
    then have "q \<notin> set (footprint h (d_ptr a))" using disj fb by auto
    moreover from represents_live [OF r q] have "deref (results h) q \<noteq> None" .
    ultimately show "deref (results h') q = deref (results h) q"
      using ev by (simp add: evolves_def)
  qed
  then have fb': "footprint h' (d_ptr b) = owned d" by (rule represents_footprint)
  have "\<forall>q \<in> set (footprint h' (d_ptr a)). q \<notin> set (footprint h' (d_ptr b))"
  proof
    fix q assume "q \<in> set (footprint h' (d_ptr a))"
    with ev have "q \<in> set (footprint h (d_ptr a)) \<or> deref (results h) q = None"
      by (auto simp: evolves_def)
    then show "q \<notin> set (footprint h' (d_ptr b))"
    proof
      assume "q \<in> set (footprint h (d_ptr a))"
      then show ?thesis using disj fb fb' by simp
    next
      assume "deref (results h) q = None"
      then have "q \<notin> set (owned d)" using represents_live [OF r] by blast
      then show ?thesis using fb' by simp
    qed
  qed
  moreover from r' have "valid h' b" by (auto simp: valid_represents)
  moreover have "observe b h' = observe b h"
    using observe_represents [OF r] observe_represents [OF r'] by simp
  ultimately show ?thesis
    using va ne by (auto simp: independent_def list_all_iff)
qed

lemma mutateBoth_view:
  assumes "independent h a b" "observe a h = Some va" "observe b h = Some vb"
  shows "\<exists>h'. mutateBoth lt a b ms h = Some h' \<and> independent h' a b
           \<and> observe a h' = Some (foldl (applyMutation lt) va (map snd (onlyOn Original ms)))
           \<and> observe b h' = Some (foldl (applyMutation lt) vb (map snd (onlyOn Duplicate ms)))"
  using assms
proof (induction ms arbitrary: h va vb)
  case Nil
  then show ?case by (simp add: onlyOn_def)
next
  case (Cons tm ms)
  obtain t m where tm: "tm = (t, m)" by (cases tm)
  show ?case
  proof (cases t)
    case Original
    from Cons.prems(1) have "valid h a" by (simp add: independent_def)
    from mutate_view [OF this Cons.prems(2), of lt m] obtain h1 where
      1: "mutate lt a m h = Some h1" "valid h1 a"
      "observe a h1 = Some (applyMutation lt va m)" "evolves (d_ptr a) h h1"
      by blast
    from evolves_other [OF Cons.prems(1) 1(4) 1(2)] Cons.prems(3)
    have 2: "independent h1 a b" "observe b h1 = Some vb" by simp_all
    from Cons.IH [OF 2(1) 1(3) 2(2)] 1(1) tm Original show ?thesis
      by (simp add: onlyOn_def)
  next
    case Duplicate
    from Cons.prems(1) have "valid h b" by (simp add: independent_def)
    from mutate_view [OF this Cons.prems(3), of lt m] obtain h1 where
      1: "mutate lt b m h = Some h1" "valid h1 b"
      "observe b h1 = Some (applyMutation lt vb m)" "evolves (d_ptr b) h h1"
      by blast
    from evolves_other [OF independent_sym [OF Cons.prems(1)] 1(4) 1(2)] Cons.prems(2)
    have 2: "independent h1 a b" "observe a h1 = Some va"
      by (simp_all add: independent_sym)
    from Cons.IH [OF 2(1) 2(2) 1(3)] 1(1) tm Duplicate show ?thesis
      by (simp add: onlyOn_def)
  qed
qed

lemma onlyOn_onlyOn:
  "onlyOn t (onlyOn t ms) = onlyOn t ms"
  "map snd (onlyOn Duplicate (onlyOn Original ms)) = []"
  "map snd (onlyOn Original (onlyOn Duplicate ms)) = []"
  by (simp_all add: onlyOn_def)

text \<open>
  Copying a log in a valid state succeeds; what is observed of the copy is what is
  observed of the original, and the original is observed as before. Whatever sequence
  of \<open>setProfileName\<close> calls and of \<open>addResults\<close> calls with results of the caller's
  own is then run on the two logs, in any interleaving, what is observed of each log is
  what its own calls alone give: no call on one log changes an observation of the other.
\<close>

lemma callers_mutations_isolated:
  assumes "valid h a" "observe a h = Some v"
  shows "\<exists>b h'. SyncLog_copy a h = Some (b, h')
           \<and> observe b h' = Some v \<and> observe a h' = Some v
           \<and> (\<forall>ms. \<exists>h2 ha hb.
                 mutateBoth lt a b ms h' = Some h2
                 \<and> mutateBoth lt a b (onlyOn Original ms) h' = Some ha
                 \<and> mutateBoth lt a b (onlyOn Duplicate ms) h' = Some hb
                 \<and> (\<exists>va vb. observe a h2 = Some va \<and> observe a ha = Some va
                        \<and> observe b h2 = Some vb \<and> observe b hb = Some vb)
                 \<and> observe b ha = Some v \<and> observe a hb = Some v)"
proof -
  from represents_observe [OF assms] obtain d where
    r: "represents h (d_ptr a) d (vRetained v) (vBest v)" and nm: "iProfileName d = vName v"
    by blast
  from copy_rep [OF r] obtain b h' d' where
    c: "SyncLog_copy a h = Some (b, h')"
    and rb: "represents h' (d_ptr b) d' (vRetained v) (vBest v)"
    and nb: "iProfileName d' = iProfileName d"
    and ra: "represents h' (d_ptr a) d (vRetained v) (vBest v)"
    and ne: "d_ptr b \<noteq> d_ptr a"
    and disj: "\<forall>q \<in> set (owned d'). q \<notin> set (owned d)"
    by blast
  have oa: "observe a h' = Some v"
    using observe_represents [OF ra] nm by (cases v) simp
  have ob: "observe b h' = Some v"
    using observe_represents [OF rb] nm nb by (cases v) simp
  have ind: "independent h' a b"
    using ra rb ne disj represents_footprint [OF ra] represents_footprint [OF rb]
    by (auto simp: independent_def valid_represents list_all_iff)
  have "\<exists>h2 ha hb.
          mutateBoth lt a b ms h' = Some h2
          \<and> mutateBoth lt a b (onlyOn Original ms) h' = Some ha
          \<and> mutateBoth lt a b (onlyOn Duplicate ms) h' = Some hb
          \<and> (\<exists>va vb. observe a h2 = Some va \<and> observe a ha = Some va
                 \<and> observe b h2 = Some vb \<and> observe b hb = Some vb)
          \<and> observe b ha = Some v \<and> observe a hb = Some v" for ms
    using mutateBoth_view [OF ind oa ob, of lt ms]
      mutateBoth_view [OF ind oa ob, of lt "onlyOn Original ms"]
      mutateBoth_view [OF ind oa ob, of lt "onlyOn Duplicate ms"]
    by (auto simp: onlyOn_onlyOn)
  with c oa ob show ?thesis by blast
qed


lemma sample_copy:
  "SyncLog_copy sampleLog sampleHeap = Some (copiedLog, copiedHeap)"
  by code_simp

lemma callers_mutations_isolated_example:
  "valid sampleHeap sampleLog
   \<and> observe sampleLog sampleHeap
       = Some \<lparr>vName = ''p'', vRetained = [okAt 3], vBest = Some (okAt 3)\<rparr>
   \<and> SyncLog_copy sampleLog sampleHeap = Some (copiedLog, copiedHeap)
   \<and> (\<exists>h2. mutateBoth sampleOrder sampleLog copiedLog
               [(Duplicate, AddResults (okAt 7)), (Duplicate, SetProfileName ''q'')]
               copiedHeap = Some h2
         \<and> observe sampleLog h2
             = Some \<lparr>vName = ''p'', vRetained = [okAt 3], vBest = Some (okAt 3)\<rparr>)"
proof -
  let ?v = "\<lparr>vName = ''p'', vRetained = [okAt 3], vBest = Some (okAt 3)\<rparr>"
  let ?ms = "[(Duplicate, AddResults (okAt 7)), (Duplicate, SetProfileName ''q'')]"
  from callers_mutations_isolated [OF sample_valid sample_observe, of sampleOrder]
  obtain b h' where c: "SyncLog_copy sampleLog sampleHeap = Some (b, h')"
    and all: "\<forall>ms. \<exists>h2 ha hb.
                 mutateBoth sampleOrder sampleLog b ms h' = Some h2
                 \<and> mutateBoth sampleOrder sampleLog b (onlyOn Original ms) h' = Some ha
                 \<and> mutateBoth sampleOrder sampleLog b (onlyOn Duplicate ms) h' = Some hb
                 \<and> (\<exists>va vb. observe sampleLog h2 = Some va \<and> observe sampleLog ha = Some va
                        \<and> observe b h2 = Some vb \<and> observe b hb = Some vb)
                 \<and> observe b ha = Some ?v \<and> observe sampleLog hb = Some ?v"
    and oa: "observe sampleLog h' = Some ?v"
    by blast
  from c have b: "b = copiedLog" "h' = copiedHeap" by (simp_all add: sample_copy)
  from all [rule_format, of ?ms] obtain h2 ha va where
    "mutateBoth sampleOrder sampleLog b ?ms h' = Some h2"
    "mutateBoth sampleOrder sampleLog b (onlyOn Original ?ms) h' = Some ha"
    "observe sampleLog h2 = Some va" "observe sampleLog ha = Some va"
    by blast
  moreover have "onlyOn Original ?ms = []" by (simp add: onlyOn_def)
  ultimately have "mutateBoth sampleOrder sampleLog b ?ms h' = Some h2"
    "observe sampleLog h2 = Some ?v"
    using oa by auto
  with c b show ?thesis
    using sample_valid sample_observe by auto
qed


section \<open>Serializing and constructing again\<close>

lemma chronological_hd:
  assumes "strictTotalOrder lt" "chronological lt rs" "x \<in> set rs"
  shows "\<not> lt x (hd rs)"
proof (cases rs)
  case Nil
  with assms(3) show ?thesis by simp
next
  case (Cons y ys)
  with assms show ?thesis
    by (auto simp: chronological_def strictTotalOrder_def)
qed

lemma chronological_split:
  assumes "chronological lt rs" "x \<in> set (take k rs)" "y \<in> set (drop k rs)"
  shows "\<not> lt y x"
proof -
  have "sorted_wrt (\<lambda>x y. \<not> lt y x) (take k rs @ drop k rs)"
    using assms(1) by (simp add: chronological_def)
  with assms(2,3) show ?thesis
    unfolding sorted_wrt_append by blast
qed

lemma hydrate_serialized:
  assumes tot: "strictTotalOrder lt" and chr: "chronological lt rs"
    and v: "v = recordAll lt rs (emptyView n)"
  shows "recordAll lt (bestNode lt v @ vRetained v) (emptyView n) = v"
proof -
  let ?W = "vRetained v" and ?L = "bestNode lt v @ vRetained v"
  let ?k = "length rs - 5"
  have e: "vRetained (emptyView n) = []" "vBest (emptyView n) = None"
    by (simp_all add: emptyView_def)
  have W: "?W = drop ?k rs"
    unfolding v by (rule recordAll_retained [OF e(1)])
  have B: "isMaximumOf lt (filter isSyncSuccessful rs) (vBest v)"
    unfolding v by (rule recordAll_best [OF tot e(2)])
  have lenW: "length ?W \<le> 5" using W by simp
  have sub: "set ?W \<subseteq> set rs" using W by (simp add: set_drop_subset)
  from tot have total: "\<And>x y. x \<noteq> y \<Longrightarrow> lt x y \<or> lt y x"
    by (simp add: strictTotalOrder_def)
  have goal: "drop (length ?L - 5) ?L = ?W
              \<and> isMaximumOf lt (filter isSyncSuccessful ?L) (vBest v)"
  proof (cases "vBest v")
    case None
    with B have "filter isSyncSuccessful rs = []" by (simp add: isMaximumOf_def)
    with sub have "filter isSyncSuccessful ?W = []"
      by (auto simp: filter_empty_conv)
    with None lenW show ?thesis
      by (simp add: bestNode_def isMaximumOf_def)
  next
    case (Some b)
    with B have b: "b \<in> set rs" "isSyncSuccessful b"
      and mx: "\<And>x. x \<in> set rs \<Longrightarrow> isSyncSuccessful x \<Longrightarrow> x = b \<or> lt x b"
      by (auto simp: isMaximumOf_def list_all_iff)
    from b(1) have "0 < length rs" by (cases rs) auto
    then have "?k < length rs" by arith
    with W have "?W \<noteq> []" by simp
    then obtain f fs where f: "?W = f # fs" by (cases ?W) auto
    have mxW: "list_all (\<lambda>x. x = b \<or> lt x b) (filter isSyncSuccessful ?W)"
      using mx sub by (auto simp: list_all_iff)
    show ?thesis
    proof (cases "lt b f")
      case True
      have "5 < length rs"
      proof (rule ccontr)
        assume "\<not> 5 < length rs"
        with W f have "rs = f # fs" by simp
        then have "hd rs = f" by simp
        with chronological_hd [OF tot chr b(1)] True show False by simp
      qed
      with W have "length ?W = 5" by simp
      moreover from True Some f have "bestNode lt v = [b]" by (simp add: bestNode_def)
      ultimately show ?thesis
        using Some b(2) mxW by (simp add: isMaximumOf_def)
    next
      case False
      have "b \<in> set ?W"
      proof (rule ccontr)
        assume n: "b \<notin> set ?W"
        with b(1) W have "b \<in> set (take ?k rs)"
          using set_append [of "take ?k rs" "drop ?k rs"] by auto
        moreover have "f \<in> set (drop ?k rs)" using W f by (metis list.set_intros(1))
        ultimately have "\<not> lt f b" by (rule chronological_split [OF chr])
        with False total [of b f] have "b = f" by blast
        with n f show False by simp
      qed
      moreover from False Some f have "bestNode lt v = []" by (simp add: bestNode_def)
      ultimately show ?thesis
        using Some b(2) mxW lenW by (simp add: isMaximumOf_def)
    qed
  qed
  let ?v' = "recordAll lt ?L (emptyView n)"
  have "vRetained ?v' = ?W"
    using recordAll_retained [OF e(1), where lt = lt and rs = ?L] goal by simp
  moreover have "vBest ?v' = vBest v"
    using maximum_unique [OF tot recordAll_best [OF tot e(2), where rs = ?L]] goal by blast
  moreover have "vName ?v' = vName v"
    by (simp add: v recordAll_name)
  ultimately show ?thesis by (simp add: LogView.equality)
qed


lemma represents_empty: "represents h p d [] None \<Longrightarrow> owned d = []"
  by (auto simp: represents_def owned_def derefNullable_def dest: derefAll_length
      split: if_splits)

lemma fromXml_frame:
  assumes va: "valid h a"
  shows "\<exists>b h'. SyncLog_fromXml lt fromXml e h = Some (b, h') \<and> valid h' b
           \<and> observe b h' =
               Some (recordAll lt (map fromXml (resultsChildren e))
                       (emptyView (attribute e ATTR_NAME)))
           \<and> observe a h' = observe a h"
proof -
  let ?n = "attribute e ATTR_NAME" and ?rs = "map fromXml (resultsChildren e)"
  from fromName_rep [of ?n h] obtain b h0 d0 where
    c: "SyncLog_fromName ?n h = Some (b, h0)"
    and rb: "represents h0 (d_ptr b) d0 [] None" and nb: "iProfileName d0 = ?n"
    and fresh: "deref (privs h) (d_ptr b) = None"
    and res: "results h0 = results h"
    and keep: "\<And>q. deref (privs h) q \<noteq> None \<Longrightarrow> deref (privs h0) q = deref (privs h) q"
    by blast
  from va obtain d rs x where ra: "represents h (d_ptr a) d rs x"
    by (auto simp: valid_represents)
  then have live: "deref (privs h) (d_ptr a) \<noteq> None" by (simp add: represents_def)
  have ra0: "represents h0 (d_ptr a) d rs x"
    by (rule represents_frame [OF ra]) (simp_all add: keep [OF live] res)
  have ob0: "observe b h0 = Some (emptyView ?n)"
    using observe_represents [OF rb] nb by (simp add: emptyView_def)
  have vb0: "valid h0 b" using rb by (auto simp: valid_represents)
  have ind: "independent h0 b a"
    using vb0 ra0 fresh live represents_footprint [OF rb] represents_empty [OF rb]
    by (auto simp: independent_def valid_represents)
  from addResultsSeq_view [OF vb0 ob0, of lt ?rs] obtain h' where
    s: "addResultsSeq lt b (map Caller ?rs) h0 = Some h'" "valid h' b"
    "observe b h' = Some (recordAll lt ?rs (emptyView ?n))" "evolves (d_ptr b) h0 h'"
    by blast
  from evolves_other [OF ind s(4) s(2)] have "observe a h' = observe a h0" by simp
  also have "\<dots> = observe a h"
    using observe_represents [OF ra] observe_represents [OF ra0] by simp
  finally have "observe a h' = observe a h" .
  moreover have "SyncLog_fromXml lt fromXml e h = Some (b, h')"
    using c s(1) by (simp add: fromXml_unfold)
  ultimately show ?thesis using s by blast
qed

lemma viewXml_read:
  assumes "faithfulCodec toXmlR fromXmlR"
  shows "map fromXmlR (resultsChildren (viewXml lt toXmlR v)) = bestNode lt v @ vRetained v"
    and "attribute (viewXml lt toXmlR v) ATTR_NAME = vName v"
proof -
  from assms have t: "\<And>r. tagName (toXmlR r) = TAG_SYNC_RESULTS"
    and i: "\<And>r. fromXmlR (toXmlR r) = r"
    by (simp_all add: faithfulCodec_def)
  have "filter (\<lambda>c. tagName c = TAG_SYNC_RESULTS) (map toXmlR xs) = map toXmlR xs" for xs
    by (induction xs) (simp_all add: t)
  moreover have "map fromXmlR (map toXmlR xs) = xs" for xs
    by (induction xs) (simp_all add: i)
  ultimately show "map fromXmlR (resultsChildren (viewXml lt toXmlR v)) = bestNode lt v @ vRetained v"
    by (simp add: resultsChildren_def viewXml_def)
  show "attribute (viewXml lt toXmlR v) ATTR_NAME = vName v"
    by (simp add: viewXml_def attribute_def)
qed

lemma sampleCodec_faithful: "faithfulCodec sampleToXml sampleFromXml"
proof -
  have "decodeInt (encodeInt i) = i" for i
    by (simp add: decodeInt_def encodeInt_def)
  moreover have "decodeTime (encodeTime t) = t" for t
    by (cases t) (simp_all add: decodeTime_def encodeTime_def)
  ultimately show ?thesis
    by (simp add: faithfulCodec_def sampleToXml_def sampleFromXml_def attribute_def)
qed

text \<open>
  C4, as the code has it: when the comparison is a strict total order, the reader of
  results inverts the writer, and the log was constructed empty and has recorded results
  in chronological order, each call of \<open>addResults\<close> with a result of the caller's own
  (an object no log owns), then the log constructed from the serialized log is observed
  exactly as the original (same profile name, same retained results, same best
  successful result), the original is observed as before, and serializing the new log
  gives the same element again. The statement says nothing of a log one of whose calls
  was given a result the log itself owns.
\<close>

theorem roundtrip_chronological:
  assumes "strictTotalOrder lt" "faithfulCodec toXmlR fromXmlR" "chronological lt rs"
  shows "\<exists>this h0 h1 v e that h2.
           SyncLog_fromName n h = Some (this, h0)
           \<and> addResultsSeq lt this (map Caller rs) h0 = Some h1
           \<and> observe this h1 = Some v
           \<and> toXml lt toXmlR this h1 = Some (e, h1)
           \<and> SyncLog_fromXml lt fromXmlR e h1 = Some (that, h2)
           \<and> observe that h2 = Some v \<and> observe this h2 = Some v
           \<and> toXml lt toXmlR that h2 = Some (e, h2)
           \<and> roundTrip lt toXmlR fromXmlR n rs h
               = Some \<lparr>rtBefore = v, rtDocument = e, rtAfter = v, rtDocumentAgain = e\<rparr>"
proof -
  let ?v = "recordAll lt rs (emptyView n)"
  let ?e = "viewXml lt toXmlR ?v"
  from fromName_view [of n h] obtain this h0 where
    0: "SyncLog_fromName n h = Some (this, h0)" "valid h0 this"
    "observe this h0 = Some (emptyView n)"
    by blast
  from addResultsSeq_view [OF 0(2) 0(3), of lt rs] obtain h1 where
    1: "addResultsSeq lt this (map Caller rs) h0 = Some h1" "valid h1 this" "observe this h1 = Some ?v"
    by blast
  have 2: "toXml lt toXmlR this h1 = Some (?e, h1)"
    by (rule toXml_view [OF 1(2) 1(3)])
  have name: "vName ?v = n" by (simp add: recordAll_name emptyView_def)
  from fromXml_frame [OF 1(2), of lt fromXmlR ?e] obtain that h2 where
    3: "SyncLog_fromXml lt fromXmlR ?e h1 = Some (that, h2)" "valid h2 that"
    "observe that h2 =
       Some (recordAll lt (map fromXmlR (resultsChildren ?e)) (emptyView (attribute ?e ATTR_NAME)))"
    "observe this h2 = observe this h1"
    by blast
  have 4: "observe that h2 = Some ?v"
    using 3(3) hydrate_serialized [OF assms(1) assms(3) refl, of n]
    by (simp add: viewXml_read [OF assms(2)] name)
  have 5: "toXml lt toXmlR that h2 = Some (?e, h2)"
    by (rule toXml_view [OF 3(2) 4])
  have "roundTrip lt toXmlR fromXmlR n rs h
          = Some \<lparr>rtBefore = ?v, rtDocument = ?e, rtAfter = ?v, rtDocumentAgain = ?e\<rparr>"
    using 0(1) 1(1) 1(3) 2 3(1) 4 5 by (simp add: roundTrip_def)
  with 0(1) 1(1) 1(3) 2 3(1) 3(4) 4 5 show ?thesis by auto
qed

lemma sample_chronological:
  "chronological sampleOrder [okAt 1, failedAt 2, failedAt 3, failedAt 4, failedAt 5, failedAt 6]"
  by code_simp

lemma sample_roundTrip_before:
  "map_option rtBefore (roundTrip sampleOrder sampleToXml sampleFromXml ''p''
      [okAt 1, failedAt 2, failedAt 3, failedAt 4, failedAt 5, failedAt 6] emptyHeap) =
   Some \<lparr>vName = ''p'',
         vRetained = [failedAt 2, failedAt 3, failedAt 4, failedAt 5, failedAt 6],
         vBest = Some (okAt 1)\<rparr>"
  by code_simp

theorem roundtrip_chronological_witness:
  "strictTotalOrder sampleOrder \<and> faithfulCodec sampleToXml sampleFromXml
   \<and> chronological sampleOrder
       [okAt 1, failedAt 2, failedAt 3, failedAt 4, failedAt 5, failedAt 6]
   \<and> map_option rtAfter (roundTrip sampleOrder sampleToXml sampleFromXml ''p''
        [okAt 1, failedAt 2, failedAt 3, failedAt 4, failedAt 5, failedAt 6] emptyHeap) =
      Some \<lparr>vName = ''p'',
            vRetained = [failedAt 2, failedAt 3, failedAt 4, failedAt 5, failedAt 6],
            vBest = Some (okAt 1)\<rparr>"
proof -
  from roundtrip_chronological [OF sampleOrder_total sampleCodec_faithful sample_chronological,
      of "''p''" emptyHeap]
  obtain v e where
    "roundTrip sampleOrder sampleToXml sampleFromXml ''p''
       [okAt 1, failedAt 2, failedAt 3, failedAt 4, failedAt 5, failedAt 6] emptyHeap
     = Some \<lparr>rtBefore = v, rtDocument = e, rtAfter = v, rtDocumentAgain = e\<rparr>"
    by blast
  with sample_roundTrip_before show ?thesis
    using sampleOrder_total sampleCodec_faithful sample_chronological by simp
qed

text \<open>
  The claim does not hold for every log: after \<open>okAt 9\<close>, \<open>failedAt 5\<close>, \<open>okAt 1\<close>,
  \<open>failedAt 6\<close>, \<open>failedAt 7\<close>, \<open>failedAt 8\<close>, recorded in this order, the best
  successful result is \<open>okAt 9\<close>; it is not smaller than the oldest retained result, so
  the element has the five retained results only. The log constructed from the element
  has \<open>okAt 1\<close> as its best successful result, and its own element has six children.
\<close>

theorem roundtrip_counterexample:
  "map_option (vBest \<circ> rtBefore)
     (roundTrip sampleOrder sampleToXml sampleFromXml ''p''
        [okAt 9, failedAt 5, okAt 1, failedAt 6, failedAt 7, failedAt 8] emptyHeap)
     = Some (Some (okAt 9))
   \<and> map_option (vBest \<circ> rtAfter)
       (roundTrip sampleOrder sampleToXml sampleFromXml ''p''
          [okAt 9, failedAt 5, okAt 1, failedAt 6, failedAt 7, failedAt 8] emptyHeap)
       = Some (Some (okAt 1))
   \<and> map_option (length \<circ> childNodes \<circ> rtDocument)
       (roundTrip sampleOrder sampleToXml sampleFromXml ''p''
          [okAt 9, failedAt 5, okAt 1, failedAt 6, failedAt 7, failedAt 8] emptyHeap)
       = Some 5
   \<and> map_option (length \<circ> childNodes \<circ> rtDocumentAgain)
       (roundTrip sampleOrder sampleToXml sampleFromXml ''p''
          [okAt 9, failedAt 5, okAt 1, failedAt 6, failedAt 7, failedAt 8] emptyHeap)
       = Some 6"
  by code_simp

end
